theory Spec2Isabelle
  imports Complex_Main "HOL-Library.Multiset"
begin

section \<open>The time-boxed concurrent read benchmark of \<^verbatim>\<open>benchmark.py\<close>\<close>

text \<open>
  The development embeds \<^verbatim>\<open>benchmark_worker\<close> (lines 104-119) and \<^verbatim>\<open>benchmark\<close>
  (lines 121-154) of \<^verbatim>\<open>src/benchmark.py\<close>. The runner and its worker processes are an
  interleaving state machine: one event is one statement of one process, and a run is a
  list of events. What the environment decides is data of the run: the value of the
  monotonic clock (events \<open>Tick\<close> advance it), whether a file read succeeds, the order in
  which the processes are scheduled, and the draws of the random number generator.

  Modelling decisions, all of them visible in the definitions below:
  \<^item> a \<^verbatim>\<open>Path\<close> is a \<open>string\<close>; a queue token is a \<open>path option\<close>, \<open>None\<close> being the stop
    sentinel the source enqueues;
  \<^item> \<^verbatim>\<open>time.perf_counter()\<close> returns the field \<open>now\<close>; clock values are reals, so the
    rounding of the one floating-point addition at line 129 is not modelled;
  \<^item> a \<^verbatim>\<open>multiprocessing.Queue\<close> is a FIFO list: \<^verbatim>\<open>put\<close> appends to the unbounded buffer
    of the feeder thread and never blocks, \<^verbatim>\<open>get\<close> on an empty queue blocks, which is an
    event that is not enabled (\<open>None\<close>);
  \<^item> the feeder thread moves the buffer into a pipe that holds \<open>pipe_room\<close> unread tokens (a
    number of tokens, where the operating system counts bytes), so \<^verbatim>\<open>join_thread\<close> at line
    144 blocks as long as more tokens than that are unread;
  \<^item> an exception in a worker ends that process without running lines 117-119.
\<close>

subsection \<open>The shuffle of line 127\<close>

type_synonym path = string

text \<open>
  \<^verbatim>\<open>random.shuffle(x)\<close> is the standard library's Fisher-Yates loop
  \<^verbatim>\<open>for i in reversed(range(1, len(x))): j = randbelow(i + 1); x[i], x[j] = x[j], x[i]\<close>.
  The draw of iteration \<open>i\<close> is \<open>rnd i\<close>, reduced into the range of \<^verbatim>\<open>randbelow(i + 1)\<close>.
\<close>

definition swap :: "'a list \<Rightarrow> nat \<Rightarrow> nat \<Rightarrow> 'a list" where
  "swap xs i j = xs[i := xs ! j, j := xs ! i]"

fun shuffle_from :: "(nat \<Rightarrow> nat) \<Rightarrow> nat \<Rightarrow> 'a list \<Rightarrow> 'a list" where
  "shuffle_from rnd 0 xs = xs"
| "shuffle_from rnd (Suc i) xs = shuffle_from rnd i (swap xs (Suc i) (rnd (Suc i) mod Suc (Suc i)))"

definition shuffle :: "(nat \<Rightarrow> nat) \<Rightarrow> 'a list \<Rightarrow> 'a list" where
  "shuffle rnd xs = shuffle_from rnd (length xs - 1) xs"

subsection \<open>A worker process\<close>

text \<open>
  The program counter of \<^verbatim>\<open>benchmark_worker\<close>: \<open>Check\<close> is lines 107-109, \<open>Get\<close> lines
  110-112, \<open>Reading p\<close> lines 113-115, \<open>Publish\<close> lines 117-119. \<open>Done\<close> is a process
  that returned, \<open>Crashed\<close> one that an exception of the read ended.
\<close>

datatype wpc = Check | Get | Reading path | Publish | Done | Crashed

text \<open>
  \<open>exit_time\<close> is the argument, \<open>t\<close> and \<open>completed_count\<close> are the locals (\<open>t\<close> is
  unbound until line 107 has run). \<open>taken\<close> is a history variable: the tokens this worker
  has dequeued so far, in order. No step reads it.
\<close>

record worker =
  pc :: wpc
  exit_time :: real
  t :: "real option"
  completed_count :: int
  taken :: "path option list"

definition spawn :: "real \<Rightarrow> worker" where
  "spawn end_t = \<lparr>pc = Check, exit_time = end_t, t = None, completed_count = 0, taken = []\<rparr>"

text \<open>
  One statement of \<^verbatim>\<open>benchmark_worker\<close>, on the clock value \<open>clock\<close>, the outcome \<open>ok\<close> of
  the read (used at lines 113-114 only) and the two queues. The result is the worker and
  the queues afterwards, or \<open>None\<close> when the worker cannot move: blocked in \<^verbatim>\<open>get\<close> on an
  empty queue, or ended.
\<close>

definition benchmark_worker ::
  "real \<Rightarrow> bool \<Rightarrow> worker \<Rightarrow> path option list \<Rightarrow> int list
    \<Rightarrow> (worker \<times> path option list \<times> int list) option" where
  "benchmark_worker clock ok w path_queue result_queue =
     (case pc w of
        Check \<Rightarrow>
          Some (w\<lparr>t := Some clock, pc := (if clock > exit_time w then Publish else Get)\<rparr>,
                path_queue, result_queue)
      | Get \<Rightarrow>
          (case path_queue of
             [] \<Rightarrow> None
           | None # rest \<Rightarrow> Some (w\<lparr>pc := Publish, taken := taken w @ [None]\<rparr>, rest, result_queue)
           | Some p # rest \<Rightarrow>
               Some (w\<lparr>pc := Reading p, taken := taken w @ [Some p]\<rparr>, rest, result_queue))
      | Reading p \<Rightarrow>
          (if ok then Some (w\<lparr>completed_count := completed_count w + 1, pc := Check\<rparr>,
                           path_queue, result_queue)
           else Some (w\<lparr>pc := Crashed\<rparr>, path_queue, result_queue))
      | Publish \<Rightarrow> Some (w\<lparr>pc := Done\<rparr>, path_queue, result_queue @ [completed_count w])
      | Done \<Rightarrow> None
      | Crashed \<Rightarrow> None)"

definition exited :: "worker \<Rightarrow> bool" where
  "exited w = (pc w = Done \<or> pc w = Crashed)"

subsection \<open>The runner\<close>

text \<open>
  The program counter of the main process inside \<^verbatim>\<open>benchmark\<close>: \<open>Starting\<close> is line 138,
  \<open>PutFiles fs\<close> the loop of lines 139-140 with \<open>fs\<close> still to iterate, \<open>PutStops i\<close> the
  loop of lines 141-142 (then lines 143-144), \<open>Joining k\<close> the loop of lines 146-147 (then
  line 148), \<open>Collecting i acc\<close> the loop of lines 150-151 with \<open>acc\<close> the local
  \<^verbatim>\<open>completed_count\<close>, and \<open>Returned c u\<close> the value of line 154.
\<close>

datatype mpc =
    Starting
  | PutFiles "path list"
  | PutStops int
  | Joining nat
  | Collecting int int
  | Returned int real

text \<open>
  The clock, the locals of \<^verbatim>\<open>benchmark\<close>, the two queues and the worker processes. \<open>path_queue\<close>
  holds the tokens put and not yet received, those in the buffer of the feeder thread and
  those in the pipe together; \<open>pipe_room\<close> is the number of unread tokens the pipe holds.
  \<open>delivered\<close> is a history variable of the path queue: the tokens dequeued so far, in
  the order of their delivery. No step reads it.
\<close>

record bench =
  now :: real
  all_files :: "path list"
  queue_depth :: int
  cache_drop :: bool
  path_queue :: "path option list"
  result_queue :: "int list"
  workers :: "worker list"
  end_t :: real
  start_t :: real
  used_t :: real
  main :: mpc
  delivered :: "path option list"
  pipe_room :: nat

text \<open>The literal of line 129.\<close>

definition duration :: real where
  "duration = 30"

text \<open>
  \<^verbatim>\<open>benchmark(all_files, queue_depth, drop_caches)\<close> up to line 136, where line 129 reads the
  clock value \<open>t0\<close>: the cache drop is requested when \<^verbatim>\<open>drop_caches > 0\<close> (a best-effort call
  whose outcome nothing reads), the caller's list is shuffled in place, the deadline is set,
  and \<^verbatim>\<open>range(queue_depth)\<close> workers are started on it. \<open>rnd\<close>, \<open>t0\<close> and \<open>room\<close> are what the
  environment contributes: the random draws, the clock and the room of the pipe.
\<close>

definition benchmark :: "path list \<Rightarrow> int \<Rightarrow> int \<Rightarrow> (nat \<Rightarrow> nat) \<Rightarrow> real \<Rightarrow> nat \<Rightarrow> bench" where
  "benchmark files qd drop_caches rnd t0 room =
     \<lparr>now = t0, all_files = shuffle rnd files, queue_depth = qd,
      cache_drop = (drop_caches > 0), path_queue = [], result_queue = [],
      workers = replicate (nat qd) (spawn (t0 + duration)),
      end_t = t0 + duration, start_t = 0, used_t = 0, main = Starting, delivered = [],
      pipe_room = room\<rparr>"

text \<open>
  One statement of the main process, lines 138-154; \<open>None\<close> when it is blocked: in
  \<^verbatim>\<open>join_thread\<close> (line 144) while the pipe cannot take the unread tokens, in \<^verbatim>\<open>join\<close>
  (line 147) on a worker that has not ended, in \<^verbatim>\<open>get\<close> (line 151) on the empty result queue.
\<close>

definition benchmark_main :: "bench \<Rightarrow> bench option" where
  "benchmark_main s =
     (case main s of
        Starting \<Rightarrow> Some (s\<lparr>start_t := now s, main := PutFiles (all_files s)\<rparr>)
      | PutFiles fs \<Rightarrow>
          (case fs of
             [] \<Rightarrow> Some (s\<lparr>main := PutStops 0\<rparr>)
           | f # rest \<Rightarrow> Some (s\<lparr>path_queue := path_queue s @ [Some f], main := PutFiles rest\<rparr>))
      | PutStops i \<Rightarrow>
          (if i < queue_depth s
           then Some (s\<lparr>path_queue := path_queue s @ [None], main := PutStops (i + 1)\<rparr>)
           else (if length (path_queue s) \<le> pipe_room s then Some (s\<lparr>main := Joining 0\<rparr>)
                 else None))
      | Joining k \<Rightarrow>
          (if k < length (workers s)
           then (if exited (workers s ! k) then Some (s\<lparr>main := Joining (Suc k)\<rparr>) else None)
           else Some (s\<lparr>used_t := now s - start_t s, main := Collecting 0 0\<rparr>))
      | Collecting i acc \<Rightarrow>
          (if i < queue_depth s
           then (case result_queue s of
                   [] \<Rightarrow> None
                 | c # rest \<Rightarrow> Some (s\<lparr>result_queue := rest, main := Collecting (i + 1) (acc + c)\<rparr>))
           else Some (s\<lparr>main := Returned acc (used_t s)\<rparr>))
      | Returned c u \<Rightarrow> None)"

subsection \<open>Events and runs\<close>

text \<open>
  \<open>Tick d\<close>: the clock advances by \<open>d \<ge> 0\<close>. \<open>Main\<close>: the main process runs one statement.
  \<open>Work i ok\<close>: worker \<open>i\<close> runs one statement, its read (if that is the statement)
  succeeding iff \<open>ok\<close>.
\<close>

datatype event = Tick real | Main | Work nat bool

fun step :: "event \<Rightarrow> bench \<Rightarrow> bench option" where
  "step (Tick d) s = (if 0 \<le> d then Some (s\<lparr>now := now s + d\<rparr>) else None)"
| "step Main s = benchmark_main s"
| "step (Work i ok) s =
     (if i < length (workers s)
      then (case benchmark_worker (now s) ok (workers s ! i) (path_queue s) (result_queue s) of
              None \<Rightarrow> None
            | Some (w', pq', rq') \<Rightarrow>
                Some (s\<lparr>workers := (workers s)[i := w'], path_queue := pq', result_queue := rq',
                        delivered := delivered s @
                          (if pc (workers s ! i) = Get then take 1 (path_queue s) else [])\<rparr>))
      else None)"

fun run :: "event list \<Rightarrow> bench \<Rightarrow> bench option" where
  "run [] s = Some s"
| "run (e # es) s = (case step e s of None \<Rightarrow> None | Some s' \<Rightarrow> run es s')"

text \<open>What the call has returned in a state, if it has.\<close>

definition result :: "bench \<Rightarrow> (int \<times> real) option" where
  "result s = (case main s of Returned c u \<Rightarrow> Some (c, u) | _ \<Rightarrow> None)"

section \<open>Notions the properties are stated with\<close>

text \<open>The fields of a state that no step of a run changes.\<close>

definition frame :: "bench \<Rightarrow> bench \<Rightarrow> bool" where
  "frame s0 s =
     (all_files s = all_files s0 \<and> queue_depth s = queue_depth s0 \<and> end_t s = end_t s0
      \<and> cache_drop s = cache_drop s0 \<and> length (workers s) = length (workers s0)
      \<and> (\<forall>i < length (workers s0). exit_time (workers s ! i) = exit_time (workers s0 ! i)))"

text \<open>
  The tokens of a call, in the order lines 139-142 enqueue them: the paths, then one stop
  sentinel per worker. \<open>pending\<close> is what the main process has still to enqueue, \<open>paths_of\<close>
  and \<open>stops_of\<close> are the paths and the number of sentinels among some tokens. \<open>fifo\<close> says
  that the tokens delivered, queued and pending, in this order, are the tokens of the call,
  and that the workers have taken exactly what was delivered.
\<close>

definition tokens :: "path list \<Rightarrow> int \<Rightarrow> path option list" where
  "tokens files qd = map Some files @ replicate (nat qd) None"

fun to_put :: "mpc \<Rightarrow> path list \<Rightarrow> int \<Rightarrow> path option list" where
  "to_put Starting files qd = tokens files qd"
| "to_put (PutFiles fs) files qd = tokens fs qd"
| "to_put (PutStops i) files qd = replicate (nat (qd - i)) None"
| "to_put (Joining k) files qd = []"
| "to_put (Collecting i acc) files qd = []"
| "to_put (Returned c u) files qd = []"

definition pending :: "bench \<Rightarrow> path option list" where
  "pending s = to_put (main s) (all_files s) (queue_depth s)"

definition paths_of :: "path option list \<Rightarrow> path list" where
  "paths_of xs = map the (filter (\<lambda>x. x \<noteq> None) xs)"

definition stops_of :: "path option list \<Rightarrow> nat" where
  "stops_of xs = length (filter (\<lambda>x. x = None) xs)"

definition fifo :: "bench \<Rightarrow> bool" where
  "fifo s = (delivered s @ path_queue s @ pending s = tokens (all_files s) (queue_depth s)
     \<and> mset (concat (map taken (workers s))) = mset (delivered s))"

text \<open>
  The bookkeeping of one worker. \<open>inflight\<close> is the read that was started and has not been
  counted (it is running, or it failed); \<open>left_loop\<close> holds once the worker has left
  the loop of lines 106-115 by a \<^verbatim>\<open>break\<close>; \<open>deadline_seen\<close> and \<open>in_time\<close> compare the
  worker's latest clock reading with its deadline.
\<close>

fun inflight :: "wpc \<Rightarrow> int" where
  "inflight (Reading p) = 1"
| "inflight Crashed = 1"
| "inflight Check = 0"
| "inflight Get = 0"
| "inflight Publish = 0"
| "inflight Done = 0"

definition left_loop :: "worker \<Rightarrow> bool" where
  "left_loop w = (pc w = Publish \<or> pc w = Done)"

definition deadline_seen :: "worker \<Rightarrow> bool" where
  "deadline_seen w = (case t w of None \<Rightarrow> False | Some \<tau> \<Rightarrow> exit_time w < \<tau>)"

definition in_time :: "worker \<Rightarrow> bool" where
  "in_time w = (case t w of None \<Rightarrow> False | Some \<tau> \<Rightarrow> \<tau> \<le> exit_time w)"

definition at_queue :: "worker \<Rightarrow> bool" where
  "at_queue w = (case pc w of Get \<Rightarrow> True | Reading p \<Rightarrow> True | _ \<Rightarrow> False)"

definition wok :: "worker \<Rightarrow> bool" where
  "wok w =
     (completed_count w + inflight (pc w) = int (length (paths_of (taken w)))
      \<and> stops_of (taken w) = (if left_loop w \<and> \<not> deadline_seen w then 1 else 0)
      \<and> (at_queue w \<longrightarrow> in_time w)
      \<and> (deadline_seen w \<longrightarrow> left_loop w))"

definition workers_ok :: "bench \<Rightarrow> bool" where
  "workers_ok s = (\<forall>w \<in> set (workers s). wok w)"

text \<open>
  What the workers have published: how many have run line 118, and the sum of their
  counts. \<open>main_inv\<close> relates it, per statement of the main process, to the result queue
  and to what lines 150-151 have taken off it.
\<close>

definition done_one :: "worker \<Rightarrow> int" where
  "done_one w = (if pc w = Done then 1 else 0)"

definition done_count :: "worker \<Rightarrow> int" where
  "done_count w = (if pc w = Done then completed_count w else 0)"

definition tally :: "worker list \<Rightarrow> int \<times> int" where
  "tally ws = (sum_list (map done_one ws), sum_list (map done_count ws))"

fun main_inv :: "mpc \<Rightarrow> worker list \<Rightarrow> int list \<Rightarrow> real \<Rightarrow> bool" where
  "main_inv Starting ws rq u = (tally ws = (int (length rq), sum_list rq))"
| "main_inv (PutFiles fs) ws rq u = (tally ws = (int (length rq), sum_list rq))"
| "main_inv (PutStops i) ws rq u = (tally ws = (int (length rq), sum_list rq))"
| "main_inv (Joining k) ws rq u =
     (k \<le> length ws \<and> (\<forall>j<k. exited (ws ! j)) \<and> tally ws = (int (length rq), sum_list rq))"
| "main_inv (Collecting i acc) ws rq u =
     (0 \<le> i \<and> (\<forall>w \<in> set ws. exited w) \<and> tally ws = (i + int (length rq), acc + sum_list rq))"
| "main_inv (Returned c u') ws rq u =
     ((\<forall>w \<in> set ws. pc w = Done) \<and> c = sum_list (map completed_count ws) \<and> rq = [] \<and> u' = u)"

definition results_inv :: "bench \<Rightarrow> bool" where
  "results_inv s =
     (length (workers s) = nat (queue_depth s)
      \<and> main_inv (main s) (workers s) (result_queue s) (used_t s))"

text \<open>
  A complete run of one worker over two files: the main process starts, enqueues both
  paths and the stop sentinel, the worker reads both files (one second each) and consumes
  the sentinel, and the main process joins, collects and returns.
\<close>

definition one_worker_run :: "event list" where
  "one_worker_run = [Main, Main, Main, Main, Main, Main,
     Work 0 True, Work 0 True, Work 0 True, Tick 1,
     Work 0 True, Work 0 True, Work 0 True, Tick 1,
     Work 0 True, Work 0 True, Work 0 True,
     Main, Main, Main, Main]"

text \<open>
  The clock never runs backwards: every clock value a process holds lies between the value
  \<open>t0\<close> read at line 129 and the present.
\<close>

definition reading_ok :: "real \<Rightarrow> real \<Rightarrow> worker \<Rightarrow> bool" where
  "reading_ok t0 clock w = (case t w of None \<Rightarrow> True | Some \<tau> \<Rightarrow> t0 \<le> \<tau> \<and> \<tau> \<le> clock)"

fun time_inv :: "mpc \<Rightarrow> real \<Rightarrow> real \<Rightarrow> real \<Rightarrow> real \<Rightarrow> bool" where
  "time_inv Starting t0 clock st u = True"
| "time_inv (PutFiles fs) t0 clock st u = (t0 \<le> st \<and> st \<le> clock)"
| "time_inv (PutStops i) t0 clock st u = (t0 \<le> st \<and> st \<le> clock)"
| "time_inv (Joining k) t0 clock st u = (t0 \<le> st \<and> st \<le> clock)"
| "time_inv (Collecting i acc) t0 clock st u = (t0 \<le> st \<and> st \<le> clock \<and> 0 \<le> u)"
| "time_inv (Returned c u') t0 clock st u = (t0 \<le> st \<and> st \<le> clock \<and> 0 \<le> u)"

definition clock_inv :: "real \<Rightarrow> bench \<Rightarrow> bool" where
  "clock_inv t0 s =
     (t0 \<le> now s \<and> (\<forall>w \<in> set (workers s). reading_ok t0 (now s) w)
      \<and> time_inv (main s) t0 (now s) (start_t s) (used_t s))"

text \<open>A complete run of two workers over two files; the first worker reads both.\<close>

definition two_worker_run :: "event list" where
  "two_worker_run = [Main, Main, Main, Main, Main, Main, Main,
     Work 0 True, Work 0 True, Work 0 True, Tick 1,
     Work 0 True, Work 0 True, Work 0 True, Tick 1,
     Work 0 True, Work 0 True, Work 0 True,
     Work 1 True, Work 1 True, Work 1 True,
     Main, Main, Main, Main, Main, Main]"

text \<open>
  A state in which no process can run a statement: the main process is blocked and every
  worker is blocked or ended. Only the clock moves.
\<close>

definition stuck :: "bench \<Rightarrow> bool" where
  "stuck s =
     (step Main s = None
      \<and> list_all (\<lambda>i. step (Work i True) s = None \<and> step (Work i False) s = None)
           [0..<length (workers s)])"

text \<open>The one-worker run, but the first read fails.\<close>

definition crash_run :: "event list" where
  "crash_run = [Main, Main, Main, Main, Main, Main,
     Work 0 True, Work 0 True, Work 0 False, Tick 1,
     Main, Main]"

text \<open>The one-worker run up to the first read.\<close>

definition reading_run :: "event list" where
  "reading_run = [Main, Main, Main, Main, Main, Main, Work 0 True, Work 0 True]"

text \<open>
  A worker checks the clock in time, and the first path is enqueued only after the
  deadline has passed: the worker, blocked in \<^verbatim>\<open>get\<close>, takes it all the same.
\<close>

definition late_run :: "event list" where
  "late_run = [Work 0 True, Tick 31, Main, Main]"

text \<open>
  Reads that take longer than \<open>d\<close>. The read of a path starts after the clock reading \<open>t\<close>
  of the same iteration (line 107 precedes lines 110 and 113), so a read that takes longer
  than \<open>d\<close> ends at a clock value beyond \<open>t + d\<close>. \<open>slow_reads d es s\<close> says so of every
  read that ends in the run \<open>es\<close> from \<open>s\<close>.
\<close>

definition read_took_longer :: "real \<Rightarrow> real \<Rightarrow> worker \<Rightarrow> bool" where
  "read_took_longer d clock w =
     (case pc w of
        Reading p \<Rightarrow> (case t w of None \<Rightarrow> False | Some \<tau> \<Rightarrow> \<tau> + d < clock)
      | _ \<Rightarrow> True)"

fun slow_event :: "real \<Rightarrow> bench \<Rightarrow> event \<Rightarrow> bool" where
  "slow_event d s (Work i ok) =
     (if i < length (workers s) then read_took_longer d (now s) (workers s ! i) else True)"
| "slow_event d s (Tick x) = True"
| "slow_event d s Main = True"

fun slow_reads :: "real \<Rightarrow> event list \<Rightarrow> bench \<Rightarrow> bool" where
  "slow_reads d [] s = True"
| "slow_reads d (e # es) s =
     (slow_event d s e \<and> (case step e s of None \<Rightarrow> True | Some s' \<Rightarrow> slow_reads d es s'))"

text \<open>
  A worker that has completed at most one read, and after one read can only find the
  deadline \<open>t0 + d\<close> passed.
\<close>

fun after_one :: "wpc \<Rightarrow> bool \<Rightarrow> bool" where
  "after_one Check late = late"
| "after_one Publish late = True"
| "after_one Done late = True"
| "after_one Get late = False"
| "after_one (Reading p) late = False"
| "after_one Crashed late = False"

definition at_most_once :: "real \<Rightarrow> real \<Rightarrow> real \<Rightarrow> worker \<Rightarrow> bool" where
  "at_most_once d t0 clock w =
     (exit_time w = t0 + d
      \<and> (completed_count w = 0 \<or> (completed_count w = 1 \<and> after_one (pc w) (t0 + d < clock))))"

text \<open>
  A run of one worker in which the read of the first file takes 31 seconds, longer than
  the duration: the worker then finds the deadline passed and publishes its count.
\<close>

definition slow_run :: "event list" where
  "slow_run = [Main, Main, Main, Main, Main, Main,
     Work 0 True, Work 0 True, Tick 31, Work 0 True,
     Work 0 True, Work 0 True,
     Main, Main, Main, Main]"

text \<open>
  The same run up to the end of the worker, before the main process has passed line 144.
\<close>

definition blocked_run :: "event list" where
  "blocked_run = [Main, Main, Main, Main, Main,
     Work 0 True, Work 0 True, Tick 31, Work 0 True,
     Work 0 True, Work 0 True]"

text \<open>
  The statements that can run in a state: the next statement of the main process and of
  each worker (a read that is under way can always end). Events \<open>Tick\<close> are the passing
  of time, not statements.
\<close>

definition runnable :: "bench \<Rightarrow> event list" where
  "runnable s =
     filter (\<lambda>e. step e s \<noteq> None) (Main # map (\<lambda>i. Work i True) [0..<length (workers s)])"

fun statement :: "event \<Rightarrow> bool" where
  "statement (Tick d) = False"
| "statement Main = True"
| "statement (Work i ok) = True"

text \<open>
  A bound on the statements still to run: what is left of the loops of the main process,
  three statements for every token not yet dequeued, and what is left of the current
  iteration of every worker.
\<close>

fun worker_rank :: "wpc \<Rightarrow> nat" where
  "worker_rank Check = 3"
| "worker_rank Get = 2"
| "worker_rank (Reading p) = 4"
| "worker_rank Publish = 1"
| "worker_rank Done = 0"
| "worker_rank Crashed = 0"

fun main_rank :: "mpc \<Rightarrow> nat \<Rightarrow> int \<Rightarrow> nat \<Rightarrow> nat" where
  "main_rank (Returned c u) nf qd n = 0"
| "main_rank (Collecting i acc) nf qd n = 1 + nat (qd - i)"
| "main_rank (Joining k) nf qd n = 2 + (n - k) + nat qd"
| "main_rank (PutStops i) nf qd n = 3 + nat (qd - i) + n + nat qd"
| "main_rank (PutFiles fs) nf qd n = 4 + length fs + n + 2 * nat qd"
| "main_rank Starting nf qd n = 5 + nf + n + 2 * nat qd"

definition potential :: "bench \<Rightarrow> nat" where
  "potential s =
     main_rank (main s) (length (all_files s)) (queue_depth s) (length (workers s))
     + 3 * (length (path_queue s) + length (pending s))
     + sum_list (map (\<lambda>w. worker_rank (pc w)) (workers s))"

text \<open>
  What a worker does in a run, statement by statement: \<open>Clock \<tau>\<close> is line 107 reading the
  clock value \<open>\<tau>\<close>, \<open>Dequeue x\<close> line 110 receiving the token \<open>x\<close>, \<open>Read_end ok\<close> the end of the
  read of lines 113-114 and \<open>Put_result c\<close> line 118 putting the count \<open>c\<close>. \<open>acts i es s\<close> lists
  the statements that worker \<open>i\<close> runs in the run \<open>es\<close> from \<open>s\<close>, in their order, and
  \<open>dequeues\<close> the tokens received in them.
\<close>

datatype act = Clock real | Dequeue "path option" | Read_end bool | Put_result int

fun act_of :: "wpc \<Rightarrow> real \<Rightarrow> bool \<Rightarrow> path option list \<Rightarrow> int \<Rightarrow> act list" where
  "act_of Check clock ok pq c = [Clock clock]"
| "act_of Get clock ok pq c = map Dequeue (take 1 pq)"
| "act_of (Reading p) clock ok pq c = [Read_end ok]"
| "act_of Publish clock ok pq c = [Put_result c]"
| "act_of Done clock ok pq c = []"
| "act_of Crashed clock ok pq c = []"

fun step_acts :: "nat \<Rightarrow> event \<Rightarrow> bench \<Rightarrow> act list" where
  "step_acts i (Work j ok) s =
     (if j = i \<and> i < length (workers s)
      then act_of (pc (workers s ! i)) (now s) ok (path_queue s) (completed_count (workers s ! i))
      else [])"
| "step_acts i (Tick d) s = []"
| "step_acts i Main s = []"

fun acts :: "nat \<Rightarrow> event list \<Rightarrow> bench \<Rightarrow> act list" where
  "acts i [] s = []"
| "acts i (e # es) s =
     (case step e s of None \<Rightarrow> [] | Some s' \<Rightarrow> step_acts i e s @ acts i es s')"

fun dequeues :: "act list \<Rightarrow> path option list" where
  "dequeues [] = []"
| "dequeues (Dequeue x # tr) = x # dequeues tr"
| "dequeues (Clock \<tau> # tr) = dequeues tr"
| "dequeues (Read_end ok # tr) = dequeues tr"
| "dequeues (Put_result c # tr) = dequeues tr"

text \<open>
  The last statement of a worker, by the place it has reached: it is at line 110 only after
  a clock reading within the deadline \<open>D\<close>, and past the loop only after a reading beyond it
  or after the stop sentinel.
\<close>

fun after :: "real \<Rightarrow> wpc \<Rightarrow> act list \<Rightarrow> bool" where
  "after D Check tr = (tr = [] \<or> last tr = Read_end True)"
| "after D Get tr = (tr \<noteq> [] \<and> (\<exists>\<tau>. last tr = Clock \<tau> \<and> \<tau> \<le> D))"
| "after D (Reading p) tr = (tr \<noteq> [] \<and> last tr = Dequeue (Some p))"
| "after D Publish tr = (tr \<noteq> [] \<and> ((\<exists>\<tau>. last tr = Clock \<tau> \<and> D < \<tau>) \<or> last tr = Dequeue None))"
| "after D Done tr = (tr \<noteq> [] \<and> (\<exists>c. last tr = Put_result c))"
| "after D Crashed tr = (tr \<noteq> [] \<and> last tr = Read_end False)"

text \<open>
  \<open>checked D tr\<close>: every dequeue in \<open>tr\<close> comes directly after a clock reading that did not
  exceed \<open>D\<close>. \<open>leaves D tr\<close>: after a clock reading beyond \<open>D\<close> comes line 118 and nothing
  else.
\<close>

definition checked :: "real \<Rightarrow> act list \<Rightarrow> bool" where
  "checked D tr =
     (\<forall>k<length tr. \<forall>x. tr ! k = Dequeue x \<longrightarrow> 0 < k \<and> (\<exists>\<tau>. tr ! (k - 1) = Clock \<tau> \<and> \<tau> \<le> D))"

definition leaves :: "real \<Rightarrow> act list \<Rightarrow> bool" where
  "leaves D tr =
     (\<forall>k<length tr. \<forall>\<tau>. tr ! k = Clock \<tau> \<and> D < \<tau> \<longrightarrow>
        Suc k = length tr \<or> (Suc (Suc k) = length tr \<and> (\<exists>c. tr ! Suc k = Put_result c)))"

section \<open>Runs and their case analysis\<close>

lemma run_append:
  "run (es @ es') s = (case run es s of None \<Rightarrow> None | Some s' \<Rightarrow> run es' s')"
  by (induction es arbitrary: s) (auto split: option.splits)

text \<open>A property of the start that every step keeps holds after every run.\<close>

lemma run_invariant:
  assumes "run es s0 = Some s" and "P s0"
    and "\<And>e s s'. P s \<Longrightarrow> step e s = Some s' \<Longrightarrow> P s'"
  shows "P s"
  using assms(1,2)
proof (induction es arbitrary: s0)
  case Nil
  then show ?case by simp
next
  case (Cons e es)
  then show ?case by (auto split: option.splits intro: assms(3))
qed

text \<open>The statements of a worker, of the main process and of the whole system, one case each.\<close>

lemma worker_cases [consumes 1, case_names Check GetStop GetPath ReadOk ReadFail Publish]:
  assumes "benchmark_worker clock ok w pq rq = Some (w', pq', rq')"
  obtains
    (Check) "pc w = Check" "pq' = pq" "rq' = rq"
      "w' = w\<lparr>t := Some clock, pc := (if clock > exit_time w then Publish else Get)\<rparr>"
  | (GetStop) "pc w = Get" "pq = None # pq'" "rq' = rq"
      "w' = w\<lparr>pc := Publish, taken := taken w @ [None]\<rparr>"
  | (GetPath) p where "pc w = Get" "pq = Some p # pq'" "rq' = rq"
      "w' = w\<lparr>pc := Reading p, taken := taken w @ [Some p]\<rparr>"
  | (ReadOk) p where "pc w = Reading p" "ok" "pq' = pq" "rq' = rq"
      "w' = w\<lparr>completed_count := completed_count w + 1, pc := Check\<rparr>"
  | (ReadFail) p where "pc w = Reading p" "\<not> ok" "pq' = pq" "rq' = rq" "w' = w\<lparr>pc := Crashed\<rparr>"
  | (Publish) "pc w = Publish" "pq' = pq" "rq' = rq @ [completed_count w]" "w' = w\<lparr>pc := Done\<rparr>"
proof (cases "pc w")
  case Check
  with assms that(1) show ?thesis by (simp add: benchmark_worker_def)
next
  case Get
  with assms that(2,3) show ?thesis
    by (cases pq; simp add: benchmark_worker_def split: option.splits)
next
  case (Reading p)
  with assms that(4,5) show ?thesis
    by (cases ok; simp add: benchmark_worker_def)
next
  case Publish
  with assms that(6) show ?thesis by (simp add: benchmark_worker_def)
next
  case Done
  with assms show ?thesis by (simp add: benchmark_worker_def)
next
  case Crashed
  with assms show ?thesis by (simp add: benchmark_worker_def)
qed

lemma main_cases [consumes 1, case_names Start PutFile FilesDone PutStop StopsDone Join Joined Collect Return]:
  assumes "benchmark_main s = Some s'"
  obtains
    (Start) "main s = Starting" "s' = s\<lparr>start_t := now s, main := PutFiles (all_files s)\<rparr>"
  | (PutFile) f rest where "main s = PutFiles (f # rest)"
      "s' = s\<lparr>path_queue := path_queue s @ [Some f], main := PutFiles rest\<rparr>"
  | (FilesDone) "main s = PutFiles []" "s' = s\<lparr>main := PutStops 0\<rparr>"
  | (PutStop) i where "main s = PutStops i" "i < queue_depth s"
      "s' = s\<lparr>path_queue := path_queue s @ [None], main := PutStops (i + 1)\<rparr>"
  | (StopsDone) i where "main s = PutStops i" "\<not> i < queue_depth s" "s' = s\<lparr>main := Joining 0\<rparr>"
      "length (path_queue s) \<le> pipe_room s"
  | (Join) k where "main s = Joining k" "k < length (workers s)" "exited (workers s ! k)"
      "s' = s\<lparr>main := Joining (Suc k)\<rparr>"
  | (Joined) k where "main s = Joining k" "\<not> k < length (workers s)"
      "s' = s\<lparr>used_t := now s - start_t s, main := Collecting 0 0\<rparr>"
  | (Collect) i acc c rest where "main s = Collecting i acc" "i < queue_depth s"
      "result_queue s = c # rest"
      "s' = s\<lparr>result_queue := rest, main := Collecting (i + 1) (acc + c)\<rparr>"
  | (Return) i acc where "main s = Collecting i acc" "\<not> i < queue_depth s"
      "s' = s\<lparr>main := Returned acc (used_t s)\<rparr>"
proof (cases "main s")
  case Starting
  with assms have "s' = s\<lparr>start_t := now s, main := PutFiles (all_files s)\<rparr>"
    by (simp add: benchmark_main_def)
  with Starting show ?thesis by (rule Start)
next
  case (PutFiles fs)
  show ?thesis
  proof (cases fs)
    case Nil
    with assms PutFiles have "s' = s\<lparr>main := PutStops 0\<rparr>"
      by (simp add: benchmark_main_def)
    with PutFiles Nil show ?thesis by (intro FilesDone) simp_all
  next
    case (Cons f rest)
    with assms PutFiles have "s' = s\<lparr>path_queue := path_queue s @ [Some f], main := PutFiles rest\<rparr>"
      by (simp add: benchmark_main_def)
    with PutFiles Cons show ?thesis by (intro PutFile[of f rest]) simp_all
  qed
next
  case (PutStops i)
  show ?thesis
  proof (cases "i < queue_depth s")
    case True
    with assms PutStops have "s' = s\<lparr>path_queue := path_queue s @ [None], main := PutStops (i + 1)\<rparr>"
      by (simp add: benchmark_main_def)
    with PutStops True show ?thesis by (intro PutStop[of i]) simp_all
  next
    case False
    with assms PutStops have "s' = s\<lparr>main := Joining 0\<rparr>"
      and "length (path_queue s) \<le> pipe_room s"
      by (simp_all add: benchmark_main_def split: if_splits)
    with PutStops False show ?thesis by (intro StopsDone[of i]) simp_all
  qed
next
  case (Joining k)
  show ?thesis
  proof (cases "k < length (workers s)")
    case True
    with assms Joining have "exited (workers s ! k)" and "s' = s\<lparr>main := Joining (Suc k)\<rparr>"
      by (simp_all add: benchmark_main_def split: if_splits)
    with Joining True show ?thesis by (intro Join[of k]) simp_all
  next
    case False
    with assms Joining have "s' = s\<lparr>used_t := now s - start_t s, main := Collecting 0 0\<rparr>"
      by (simp add: benchmark_main_def)
    with Joining False show ?thesis by (intro Joined[of k]) simp_all
  qed
next
  case (Collecting i acc)
  show ?thesis
  proof (cases "i < queue_depth s")
    case True
    show ?thesis
    proof (cases "result_queue s")
      case Nil
      with assms Collecting True show ?thesis by (simp add: benchmark_main_def)
    next
      case (Cons c rest)
      with assms Collecting True
      have "s' = s\<lparr>result_queue := rest, main := Collecting (i + 1) (acc + c)\<rparr>"
        by (simp add: benchmark_main_def)
      with Collecting True Cons show ?thesis by (intro Collect[of i acc c rest]) simp_all
    qed
  next
    case False
    with assms Collecting have "s' = s\<lparr>main := Returned acc (used_t s)\<rparr>"
      by (simp add: benchmark_main_def)
    with Collecting False show ?thesis by (intro Return[of i acc]) simp_all
  qed
next
  case (Returned c u)
  with assms show ?thesis by (simp add: benchmark_main_def)
qed

lemma step_cases [consumes 1, case_names Tick Main Work]:
  assumes "step e s = Some s'"
  obtains
    (Tick) d where "e = Tick d" "0 \<le> d" "s' = s\<lparr>now := now s + d\<rparr>"
  | (Main) "e = Main" "benchmark_main s = Some s'"
  | (Work) i ok w' pq' rq' where "e = Work i ok" "i < length (workers s)"
      "benchmark_worker (now s) ok (workers s ! i) (path_queue s) (result_queue s) = Some (w', pq', rq')"
      "s' = s\<lparr>workers := (workers s)[i := w'], path_queue := pq', result_queue := rq',
              delivered := delivered s @ (if pc (workers s ! i) = Get then take 1 (path_queue s) else [])\<rparr>"
proof (cases e)
  case (Tick d)
  with assms have "0 \<le> d" and "s' = s\<lparr>now := now s + d\<rparr>"
    by (simp_all split: if_splits)
  with Tick show ?thesis by (intro that(1)[of d]) simp_all
next
  case Main
  with assms that(2) show ?thesis by simp
next
  case (Work i ok)
  with assms have i: "i < length (workers s)"
    by (simp split: if_splits)
  with assms Work obtain w' pq' rq' where
    w: "benchmark_worker (now s) ok (workers s ! i) (path_queue s) (result_queue s) = Some (w', pq', rq')"
    by (cases "benchmark_worker (now s) ok (workers s ! i) (path_queue s) (result_queue s)") auto
  with assms Work i have
    "s' = s\<lparr>workers := (workers s)[i := w'], path_queue := pq', result_queue := rq',
              delivered := delivered s @ (if pc (workers s ! i) = Get then take 1 (path_queue s) else [])\<rparr>"
    by (simp del: take_Suc_Cons)
  with Work i w show ?thesis by (intro that(3)[of i ok w' pq' rq']) simp_all
qed

section \<open>The shuffle is a permutation\<close>

lemma length_swap [simp]: "length (swap xs i j) = length xs"
  by (simp add: swap_def)

lemma mset_swap_list: "i < length xs \<Longrightarrow> j < length xs \<Longrightarrow> mset (swap xs i j) = mset xs"
  unfolding swap_def by (simp add: mset_swap)

lemma shuffle_from_perm: "i < length xs \<Longrightarrow> mset (shuffle_from rnd i xs) = mset xs \<and> length (shuffle_from rnd i xs) = length xs"
proof (induction i arbitrary: xs)
  case 0
  then show ?case by simp
next
  case (Suc i)
  have j: "rnd (Suc i) mod Suc (Suc i) < length xs"
    using Suc.prems by (meson Suc_leI less_le_trans mod_less_divisor zero_less_Suc)
  have "i < length (swap xs (Suc i) (rnd (Suc i) mod Suc (Suc i)))"
    using Suc.prems by simp
  from Suc.IH[OF this] show ?case
    using Suc.prems j by (simp add: mset_swap_list)
qed

lemma mset_shuffle [simp]: "mset (shuffle rnd xs) = mset xs"
proof (cases xs)
  case Nil
  then show ?thesis by (simp add: shuffle_def)
next
  case (Cons x ys)
  then have "length xs - 1 < length xs" by simp
  then show ?thesis unfolding shuffle_def by (simp add: shuffle_from_perm)
qed

lemma length_shuffle [simp]: "length (shuffle rnd xs) = length xs"
  using mset_shuffle[of rnd xs] by (metis size_mset)

lemma set_shuffle [simp]: "set (shuffle rnd xs) = set xs"
  using mset_shuffle[of rnd xs] by (metis set_mset_mset)

lemma distinct_shuffle [simp]: "distinct (shuffle rnd xs) = distinct xs"
  using mset_shuffle[of rnd xs] by (metis mset_eq_imp_distinct_iff)

section \<open>What a run never changes\<close>

lemma worker_exit_time:
  assumes "benchmark_worker clock ok w pq rq = Some (w', pq', rq')"
  shows "exit_time w' = exit_time w"
  using assms by (cases rule: worker_cases) simp_all

lemma main_frame:
  assumes "benchmark_main s = Some s'"
  shows "frame s s'"
  using assms by (cases rule: main_cases) (simp_all add: frame_def)

lemma step_frame:
  assumes "step e s = Some s'"
  shows "frame s s'"
  using assms
proof (cases rule: step_cases)
  case (Tick d)
  then show ?thesis by (simp add: frame_def)
next
  case Main
  then show ?thesis by (simp add: main_frame)
next
  case (Work i ok w' pq' rq')
  then show ?thesis
    by (simp add: frame_def nth_list_update worker_exit_time)
qed

lemma frame_refl: "frame s s"
  by (simp add: frame_def)

lemma frame_trans: "frame s0 s \<Longrightarrow> frame s s' \<Longrightarrow> frame s0 s'"
  by (simp add: frame_def)

lemma run_frame:
  assumes "run es s0 = Some s"
  shows "frame s0 s"
  using assms
  by (rule run_invariant[where P = "frame s0"]) (auto intro: frame_refl frame_trans step_frame)

lemma start_fields [simp]:
  "now (benchmark files qd dc rnd t0 room) = t0"
  "all_files (benchmark files qd dc rnd t0 room) = shuffle rnd files"
  "queue_depth (benchmark files qd dc rnd t0 room) = qd"
  "cache_drop (benchmark files qd dc rnd t0 room) = (dc > 0)"
  "path_queue (benchmark files qd dc rnd t0 room) = []"
  "result_queue (benchmark files qd dc rnd t0 room) = []"
  "workers (benchmark files qd dc rnd t0 room) = replicate (nat qd) (spawn (t0 + duration))"
  "end_t (benchmark files qd dc rnd t0 room) = t0 + duration"
  "main (benchmark files qd dc rnd t0 room) = Starting"
  "delivered (benchmark files qd dc rnd t0 room) = []"
  "pipe_room (benchmark files qd dc rnd t0 room) = room"
  by (simp_all add: benchmark_def)

lemma spawn_fields [simp]:
  "pc (spawn e) = Check" "exit_time (spawn e) = e" "t (spawn e) = None"
  "completed_count (spawn e) = 0" "taken (spawn e) = []"
  by (simp_all add: spawn_def)

section \<open>Every token is delivered once, in order\<close>

lemma replicate_nat_diff: "i < q \<Longrightarrow> replicate (nat (q - i)) x = x # replicate (nat (q - (i + 1))) x"
  for i q :: int
proof -
  assume "i < q"
  then have "nat (q - i) = Suc (nat (q - (i + 1)))" by simp
  then show ?thesis by simp
qed

lemma main_fifo:
  assumes "benchmark_main s = Some s'" and "fifo s"
  shows "fifo s'"
  using assms
proof (cases rule: main_cases)
  case (PutStop i)
  with assms(2) show ?thesis
    by (simp add: fifo_def pending_def replicate_nat_diff)
next
  case (StopsDone i)
  with assms(2) show ?thesis
    by (simp add: fifo_def pending_def)
qed (use assms(2) in \<open>simp_all add: fifo_def pending_def tokens_def\<close>)

lemma mset_concat_update:
  "i < length ws \<Longrightarrow>
   mset (concat (map f (ws[i := w']))) + mset (f (ws ! i)) = mset (concat (map f ws)) + mset (f w')"
proof (induction ws arbitrary: i)
  case Nil
  then show ?case by simp
next
  case (Cons w ws)
  then show ?case by (cases i) (simp_all add: ac_simps)
qed

lemma mset_concat_update_snoc:
  assumes "i < length ws" and "f w' = f (ws ! i) @ [x]"
  shows "mset (concat (map f (ws[i := w']))) = add_mset x (mset (concat (map f ws)))"
  using mset_concat_update[OF assms(1), of f w'] assms(2) by simp

lemma mset_concat_update_same:
  assumes "i < length ws" and "f w' = f (ws ! i)"
  shows "mset (concat (map f (ws[i := w']))) = mset (concat (map f ws))"
  using mset_concat_update[OF assms(1), of f w'] assms(2) by simp

lemma work_fifo:
  assumes "i < length (workers s)"
    and "benchmark_worker (now s) ok (workers s ! i) (path_queue s) (result_queue s) = Some (w', pq', rq')"
    and "fifo s"
    and "s' = s\<lparr>workers := (workers s)[i := w'], path_queue := pq', result_queue := rq',
              delivered := delivered s @ (if pc (workers s ! i) = Get then take 1 (path_queue s) else [])\<rparr>"
  shows "fifo s'"
  using assms(2)
proof (cases rule: worker_cases)
  case GetStop
  with assms(1,3,4) show ?thesis
    by (simp add: fifo_def pending_def mset_concat_update_snoc)
next
  case (GetPath p)
  with assms(1,3,4) show ?thesis
    by (simp add: fifo_def pending_def mset_concat_update_snoc)
qed (use assms(1,3,4) in \<open>simp_all add: fifo_def pending_def mset_concat_update_same\<close>)

lemma step_fifo:
  assumes "step e s = Some s'" and "fifo s"
  shows "fifo s'"
  using assms(1)
proof (cases rule: step_cases)
  case (Tick d)
  with assms(2) show ?thesis by (simp add: fifo_def pending_def)
next
  case Main
  with assms(2) show ?thesis by (simp add: main_fifo)
next
  case (Work i ok w' pq' rq')
  with assms(2) show ?thesis by (simp add: work_fifo)
qed

text \<open>The definitions a concrete run is evaluated with.\<close>

lemmas eval_defs = benchmark_def benchmark_main_def benchmark_worker_def
  spawn_def duration_def exited_def shuffle_def swap_def result_def

section \<open>The bookkeeping of the workers\<close>

lemma paths_of_simps [simp]:
  "paths_of [] = []"
  "paths_of (xs @ ys) = paths_of xs @ paths_of ys"
  "paths_of (Some p # xs) = p # paths_of xs"
  "paths_of (None # xs) = paths_of xs"
  by (simp_all add: paths_of_def)

lemma stops_of_simps [simp]:
  "stops_of [] = 0"
  "stops_of (xs @ ys) = stops_of xs + stops_of ys"
  "stops_of (Some p # xs) = stops_of xs"
  "stops_of (None # xs) = Suc (stops_of xs)"
  by (simp_all add: stops_of_def)

lemma worker_wok:
  assumes "benchmark_worker clock ok w pq rq = Some (w', pq', rq')" and "wok w"
  shows "wok w'"
  using assms(1)
proof (cases rule: worker_cases)
  case Check
  with assms(2) show ?thesis
    by (simp add: wok_def left_loop_def deadline_seen_def in_time_def at_queue_def)
next
  case GetStop
  with assms(2) show ?thesis
    by (simp add: wok_def left_loop_def deadline_seen_def in_time_def at_queue_def
        split: option.splits)
next
  case (GetPath p)
  with assms(2) show ?thesis
    by (simp add: wok_def left_loop_def deadline_seen_def in_time_def at_queue_def
        split: option.splits)
next
  case (ReadOk p)
  with assms(2) show ?thesis
    by (simp add: wok_def left_loop_def deadline_seen_def in_time_def at_queue_def
        split: option.splits)
next
  case (ReadFail p)
  with assms(2) show ?thesis
    by (simp add: wok_def left_loop_def deadline_seen_def in_time_def at_queue_def
        split: option.splits)
next
  case Publish
  with assms(2) show ?thesis
    by (simp add: wok_def left_loop_def deadline_seen_def in_time_def at_queue_def
        split: option.splits)
qed

lemma main_keeps:
  assumes "benchmark_main s = Some s'"
  shows "workers s' = workers s" and "now s' = now s" and "delivered s' = delivered s"
  using assms by (cases rule: main_cases; simp)+

lemma step_workers_ok:
  assumes "step e s = Some s'" and "workers_ok s"
  shows "workers_ok s'"
  using assms(1)
proof (cases rule: step_cases)
  case (Tick d)
  with assms(2) show ?thesis by (simp add: workers_ok_def)
next
  case Main
  with assms(2) show ?thesis by (simp add: workers_ok_def main_keeps)
next
  case (Work i ok w' pq' rq')
  from assms(2) Work(2) have "wok (workers s ! i)"
    by (simp add: workers_ok_def)
  with Work(3) have "wok w'" by (rule worker_wok)
  moreover have "set ((workers s)[i := w']) \<subseteq> insert w' (set (workers s))"
    by (rule set_update_subset_insert)
  ultimately show ?thesis
    using assms(2) Work(4) by (auto simp add: workers_ok_def)
qed

lemma start_workers_ok: "workers_ok (benchmark files qd dc rnd t0 room)"
  by (simp add: workers_ok_def wok_def left_loop_def deadline_seen_def in_time_def at_queue_def)

lemma start_fifo: "fifo (benchmark files qd dc rnd t0 room)"
  by (simp add: fifo_def pending_def)

section \<open>What is published is what is collected\<close>

lemma sum_list_map_update:
  fixes f :: "'a \<Rightarrow> int"
  shows "i < length xs \<Longrightarrow> sum_list (map f (xs[i := y])) = sum_list (map f xs) - f (xs ! i) + f y"
proof (induction xs arbitrary: i)
  case Nil
  then show ?case by simp
next
  case (Cons x xs)
  then show ?case by (cases i) simp_all
qed

lemma tally_update:
  assumes "i < length ws"
  shows "tally (ws[i := w']) =
    (fst (tally ws) - done_one (ws ! i) + done_one w', snd (tally ws) - done_count (ws ! i) + done_count w')"
  using assms by (simp add: tally_def sum_list_map_update)

lemma done_one_bounds: "0 \<le> sum_list (map done_one ws) \<and> sum_list (map done_one ws) \<le> int (length ws)"
  by (induction ws) (simp_all add: done_one_def)

lemma all_done:
  assumes "sum_list (map done_one ws) = int (length ws)"
  shows "\<forall>w \<in> set ws. pc w = Done"
  using assms
proof (induction ws)
  case Nil
  then show ?case by simp
next
  case (Cons w ws)
  have b: "sum_list (map done_one ws) \<le> int (length ws)"
    using done_one_bounds[of ws] by simp
  from Cons.prems have "done_one w + sum_list (map done_one ws) = 1 + int (length ws)"
    by simp
  moreover have "done_one w \<le> 1" by (simp add: done_one_def)
  ultimately have one: "done_one w = 1" and rest: "sum_list (map done_one ws) = int (length ws)"
    using b by linarith+
  from one have "pc w = Done" by (simp add: done_one_def split: if_splits)
  moreover from Cons.IH[OF rest] have "\<forall>w \<in> set ws. pc w = Done" .
  ultimately show ?case by simp
qed

lemma all_done_count:
  assumes "\<forall>w \<in> set ws. pc w = Done"
  shows "sum_list (map done_count ws) = sum_list (map completed_count ws)"
  using assms by (induction ws) (simp_all add: done_count_def)

lemma worker_not_exited:
  assumes "benchmark_worker clock ok w pq rq = Some r"
  shows "\<not> exited w"
  using assms by (auto simp add: benchmark_worker_def exited_def)

lemma worker_tally:
  assumes "benchmark_worker clock ok w pq rq = Some (w', pq', rq')"
  shows "done_one w = 0 \<and> done_count w = 0
    \<and> int (length rq') = int (length rq) + done_one w'
    \<and> sum_list rq' = sum_list rq + done_count w'"
  using assms by (cases rule: worker_cases) (simp_all add: done_one_def done_count_def)

lemma main_results:
  assumes "benchmark_main s = Some s'" and "results_inv s"
  shows "results_inv s'"
  using assms(1)
proof (cases rule: main_cases)
  case (Join k)
  with assms(2) show ?thesis
    by (auto simp add: results_inv_def less_Suc_eq)
next
  case (Joined k)
  with assms(2) have "\<forall>j<length (workers s). exited (workers s ! j)"
    by (auto simp add: results_inv_def)
  then have "\<forall>w \<in> set (workers s). exited w"
    by (auto simp add: in_set_conv_nth)
  with Joined assms(2) show ?thesis
    by (simp add: results_inv_def)
next
  case (Collect i acc c rest)
  with assms(2) show ?thesis
    by (simp add: results_inv_def)
next
  case (Return i acc)
  from Return(1) assms(2) have len: "length (workers s) = nat (queue_depth s)"
    and i0: "0 \<le> i"
    and n: "sum_list (map done_one (workers s)) = i + int (length (result_queue s))"
    and c: "sum_list (map done_count (workers s)) = acc + sum_list (result_queue s)"
    by (simp_all add: results_inv_def tally_def)
  have b: "sum_list (map done_one (workers s)) \<le> int (length (workers s))"
    using done_one_bounds[of "workers s"] by simp
  from Return(2) len i0 n b have full: "sum_list (map done_one (workers s)) = int (length (workers s))"
    and empty: "length (result_queue s) = 0"
    by linarith+
  from all_done[OF full] have d: "\<forall>w \<in> set (workers s). pc w = Done" .
  from empty have e: "result_queue s = []" by simp
  from c e all_done_count[OF d] have "acc = sum_list (map completed_count (workers s))"
    by simp
  with Return(3) len d e show ?thesis
    by (simp add: results_inv_def)
qed (use assms(2) in \<open>simp_all add: results_inv_def\<close>)

lemma work_results:
  assumes i: "i < length (workers s)"
    and w: "benchmark_worker (now s) ok (workers s ! i) (path_queue s) (result_queue s) = Some (w', pq', rq')"
    and inv: "results_inv s"
    and s': "workers s' = (workers s)[i := w']" "result_queue s' = rq'"
      "main s' = main s" "queue_depth s' = queue_depth s" "used_t s' = used_t s"
  shows "results_inv s'"
proof -
  from w have ne: "\<not> exited (workers s ! i)" by (rule worker_not_exited)
  from worker_tally[OF w] have z: "done_one (workers s ! i) = 0" "done_count (workers s ! i) = 0"
    and l: "int (length rq') = int (length (result_queue s)) + done_one w'"
    and c: "sum_list rq' = sum_list (result_queue s) + done_count w'"
    by simp_all
  have ty: "tally ((workers s)[i := w']) =
      (fst (tally (workers s)) + done_one w', snd (tally (workers s)) + done_count w')"
    using tally_update[OF i, of w'] z by simp
  show ?thesis
  proof (cases "main s")
    case Starting
    with inv s' ty l c show ?thesis by (simp add: results_inv_def)
  next
    case (PutFiles fs)
    with inv s' ty l c show ?thesis by (simp add: results_inv_def)
  next
    case (PutStops j)
    with inv s' ty l c show ?thesis by (simp add: results_inv_def)
  next
    case (Joining k)
    with inv ne i have "\<not> i < k" by (auto simp add: results_inv_def)
    then have "\<forall>j<k. (workers s)[i := w'] ! j = workers s ! j" by simp
    with Joining inv s' ty l c show ?thesis by (simp add: results_inv_def)
  next
    case (Collecting j acc)
    with inv ne i show ?thesis by (auto simp add: results_inv_def)
  next
    case (Returned r u)
    with inv ne i show ?thesis by (auto simp add: results_inv_def exited_def)
  qed
qed

lemma step_results:
  assumes "step e s = Some s'" and "results_inv s"
  shows "results_inv s'"
  using assms(1)
proof (cases rule: step_cases)
  case (Tick d)
  with assms(2) show ?thesis by (simp add: results_inv_def)
next
  case Main
  with assms(2) show ?thesis by (simp add: main_results)
next
  case (Work i ok w' pq' rq')
  show ?thesis
    by (rule work_results[OF Work(2,3) assms(2)]) (simp_all add: Work(4))
qed

lemma sum_list_replicate_zero [simp]: "sum_list (replicate n (0::int)) = 0"
  by (induction n) simp_all

lemma start_results: "results_inv (benchmark files qd dc rnd t0 room)"
  by (simp add: results_inv_def tally_def done_one_def done_count_def)

section \<open>Reachable states\<close>

lemma reachable_inv:
  assumes "run es (benchmark files qd dc rnd t0 room) = Some s"
  shows "fifo s \<and> workers_ok s \<and> results_inv s"
  using assms
  by (rule run_invariant)
    (auto simp add: start_fifo start_workers_ok start_results
      intro: step_fifo step_workers_ok step_results)

lemma reachable_frame:
  assumes "run es (benchmark files qd dc rnd t0 room) = Some s"
  shows "all_files s = shuffle rnd files" and "queue_depth s = qd" and "end_t s = t0 + duration"
    and "length (workers s) = nat qd"
    and "\<forall>w \<in> set (workers s). exit_time w = t0 + duration"
proof -
  from run_frame[OF assms] have f: "frame (benchmark files qd dc rnd t0 room) s" .
  then show "all_files s = shuffle rnd files" and "queue_depth s = qd" and "end_t s = t0 + duration"
    and l: "length (workers s) = nat qd"
    by (simp_all add: frame_def)
  from f l have "\<forall>i < length (workers s). exit_time (workers s ! i) = t0 + duration"
    by (simp add: frame_def)
  then show "\<forall>w \<in> set (workers s). exit_time w = t0 + duration"
    by (auto simp add: in_set_conv_nth)
qed

lemma paths_of_map_Some [simp]: "paths_of (map Some fs) = fs"
  by (induction fs) simp_all

lemma paths_of_replicate_None [simp]: "paths_of (replicate n None) = []"
  by (induction n) simp_all

lemma paths_of_tokens [simp]: "paths_of (tokens fs qd) = fs"
  by (simp add: tokens_def)

lemma stops_of_map_Some [simp]: "stops_of (map Some fs) = 0"
  by (induction fs) simp_all

lemma stops_of_replicate_None [simp]: "stops_of (replicate n None) = n"
  by (induction n) simp_all

lemma stops_of_tokens [simp]: "stops_of (tokens fs qd) = nat qd"
  by (simp add: tokens_def)

lemma mset_paths_of: "mset (paths_of xs) = image_mset the (filter_mset (\<lambda>x. x \<noteq> None) (mset xs))"
  by (simp add: paths_of_def)

lemma paths_of_cong_mset: "mset xs = mset ys \<Longrightarrow> mset (paths_of xs) = mset (paths_of ys)"
  by (simp add: mset_paths_of)

lemma stops_of_cong_mset: "mset xs = mset ys \<Longrightarrow> stops_of xs = stops_of ys"
  unfolding stops_of_def by (metis mset_filter size_mset)

lemma length_paths_of_concat:
  "(\<Sum>w\<leftarrow>ws. int (length (paths_of (f w)))) = int (length (paths_of (concat (map f ws))))"
  by (induction ws) simp_all

lemma stops_of_concat:
  "(\<Sum>w\<leftarrow>ws. stops_of (f w)) = stops_of (concat (map f ws))"
  by (induction ws) simp_all

lemma delivered_paths:
  assumes "fifo s"
  shows "paths_of (delivered s) @ paths_of (path_queue s @ pending s) = all_files s"
proof -
  from assms have "paths_of (delivered s @ path_queue s @ pending s) = all_files s"
    by (simp add: fifo_def)
  then show ?thesis by simp
qed

section \<open>Concrete runs\<close>

lemma one_worker_run_state:
  "run one_worker_run (benchmark [''a'', ''b''] 1 3 (\<lambda>i. 0) 0 8) =
     Some \<lparr>now = 2, all_files = [''b'', ''a''], queue_depth = 1, cache_drop = True,
       path_queue = [], result_queue = [],
       workers = [\<lparr>pc = Done, exit_time = 30, t = Some 2, completed_count = 2,
                   taken = [Some ''b'', Some ''a'', None]\<rparr>],
       end_t = 30, start_t = 0, used_t = 2, main = Returned 2 2,
       delivered = [Some ''b'', Some ''a'', None],
       pipe_room = 8\<rparr>"
  by (simp add: one_worker_run_def eval_defs)

section \<open>The clock\<close>

lemma worker_reading:
  assumes "benchmark_worker clock ok w pq rq = Some (w', pq', rq')"
    and "reading_ok t0 clock w" and "t0 \<le> clock"
  shows "reading_ok t0 clock w'"
  using assms(1)
  by (cases rule: worker_cases) (use assms(2,3) in \<open>simp_all add: reading_ok_def\<close>)

lemma reading_ok_mono: "reading_ok t0 clock w \<Longrightarrow> clock \<le> clock' \<Longrightarrow> reading_ok t0 clock' w"
  by (auto simp add: reading_ok_def split: option.splits)

lemma time_inv_mono: "time_inv m t0 clock st u \<Longrightarrow> clock \<le> clock' \<Longrightarrow> time_inv m t0 clock' st u"
  by (cases m) auto

lemma main_clock:
  assumes "benchmark_main s = Some s'" and "clock_inv t0 s"
  shows "clock_inv t0 s'"
  using assms(1)
  by (cases rule: main_cases) (use assms(2) in \<open>simp_all add: clock_inv_def\<close>)

lemma step_clock:
  assumes "step e s = Some s'" and "clock_inv t0 s"
  shows "clock_inv t0 s'"
  using assms(1)
proof (cases rule: step_cases)
  case (Tick d)
  with assms(2) show ?thesis
    by (auto simp add: clock_inv_def intro: reading_ok_mono time_inv_mono)
next
  case Main
  with assms(2) show ?thesis by (simp add: main_clock)
next
  case (Work i ok w' pq' rq')
  from assms(2) Work(2) have "reading_ok t0 (now s) (workers s ! i)" and "t0 \<le> now s"
    by (simp_all add: clock_inv_def)
  with Work(3) have "reading_ok t0 (now s) w'" by (rule worker_reading)
  moreover have "set ((workers s)[i := w']) \<subseteq> insert w' (set (workers s))"
    by (rule set_update_subset_insert)
  ultimately show ?thesis
    using assms(2) Work(4) by (auto simp add: clock_inv_def)
qed

lemma start_clock: "clock_inv t0 (benchmark files qd dc rnd t0 room)"
  by (simp add: clock_inv_def reading_ok_def)

lemma reachable_clock:
  assumes "run es (benchmark files qd dc rnd t0 room) = Some s"
  shows "clock_inv t0 s"
  using assms by (rule run_invariant) (auto simp add: start_clock intro: step_clock)

lemma two_worker_run_state:
  "run two_worker_run (benchmark [''a'', ''b''] 2 3 (\<lambda>i. 0) 0 8) =
     Some \<lparr>now = 2, all_files = [''b'', ''a''], queue_depth = 2, cache_drop = True,
       path_queue = [], result_queue = [],
       workers = [\<lparr>pc = Done, exit_time = 30, t = Some 2, completed_count = 2,
                   taken = [Some ''b'', Some ''a'', None]\<rparr>,
                  \<lparr>pc = Done, exit_time = 30, t = Some 2, completed_count = 0,
                   taken = [None]\<rparr>],
       end_t = 30, start_t = 0, used_t = 2, main = Returned 2 2,
       delivered = [Some ''b'', Some ''a'', None, None],
       pipe_room = 8\<rparr>"
  by (simp add: two_worker_run_def eval_defs numeral_2_eq_2)

section \<open>After the return\<close>

lemma returned_stable:
  assumes "step e s = Some s'" and "results_inv s" and "main s = Returned c u"
  shows "main s' = Returned c u"
  using assms(1)
proof (cases rule: step_cases)
  case (Tick d)
  with assms(3) show ?thesis by simp
next
  case Main
  with assms(3) show ?thesis by (simp add: benchmark_main_def)
next
  case (Work i ok w' pq' rq')
  from Work(3) have "\<not> exited (workers s ! i)" by (rule worker_not_exited)
  moreover from assms(2,3) Work(2) have "pc (workers s ! i) = Done"
    by (simp add: results_inv_def)
  ultimately show ?thesis by (simp add: exited_def)
qed

lemma run_from_inv:
  assumes "run es s = Some s'" and "results_inv s"
  shows "results_inv s'"
  using assms by (rule run_invariant) (auto intro: step_results)

lemma run_returned_stable:
  assumes "run es s = Some s'" and "results_inv s" and "main s = Returned c u"
  shows "main s' = Returned c u"
proof -
  have "results_inv s' \<and> main s' = Returned c u"
    using assms(1)
    by (rule run_invariant) (auto simp add: assms(2,3) intro: step_results returned_stable)
  then show ?thesis by simp
qed

lemma sum_list_nonneg_int: "(\<forall>x \<in> set xs. 0 \<le> f x) \<Longrightarrow> 0 \<le> sum_list (map f xs)" for f :: "'a \<Rightarrow> int"
  by (induction xs) simp_all

section \<open>A failed read\<close>

lemma main_workers_length:
  assumes "step e s = Some s'"
  shows "length (workers s') = length (workers s)"
  using step_frame[OF assms] by (simp add: frame_def)

lemma crashed_stays:
  assumes "step e s = Some s'" and "i < length (workers s)" and "pc (workers s ! i) = Crashed"
  shows "workers s' ! i = workers s ! i"
  using assms(1)
proof (cases rule: step_cases)
  case (Tick d)
  then show ?thesis by simp
next
  case Main
  then show ?thesis by (simp add: main_keeps)
next
  case (Work j ok w' pq' rq')
  from Work(3) have "\<not> exited (workers s ! j)" by (rule worker_not_exited)
  with assms(3) have "j \<noteq> i" by (auto simp add: exited_def)
  with Work(4) show ?thesis by simp
qed

lemma run_crashed_stays:
  assumes "run es s = Some s'" and "i < length (workers s)" and "pc (workers s ! i) = Crashed"
  shows "length (workers s') = length (workers s) \<and> workers s' ! i = workers s ! i"
  using assms(1)
proof (rule run_invariant)
  show "length (workers s) = length (workers s) \<and> workers s ! i = workers s ! i" by simp
next
  fix e s1 s2
  assume inv: "length (workers s1) = length (workers s) \<and> workers s1 ! i = workers s ! i"
    and st: "step e s1 = Some s2"
  from inv assms(2,3) have "i < length (workers s1)" and "pc (workers s1 ! i) = Crashed"
    by simp_all
  from crashed_stays[OF st this] main_workers_length[OF st] inv
  show "length (workers s2) = length (workers s) \<and> workers s2 ! i = workers s ! i"
    by simp
qed

lemma no_result_with_crash:
  assumes "results_inv s" and "i < length (workers s)" and "pc (workers s ! i) = Crashed"
  shows "result s = None"
proof (cases "main s")
  case (Returned c u)
  with assms(1) have "\<forall>w \<in> set (workers s). pc w = Done"
    by (simp add: results_inv_def)
  with assms(2) have "pc (workers s ! i) = Done" by simp
  with assms(3) show ?thesis by simp
qed (simp_all add: result_def)

lemma crash_run_state:
  "run crash_run (benchmark [''a'', ''b''] 1 3 (\<lambda>i. 0) 0 8) =
     Some \<lparr>now = 1, all_files = [''b'', ''a''], queue_depth = 1, cache_drop = True,
       path_queue = [Some ''a'', None], result_queue = [],
       workers = [\<lparr>pc = Crashed, exit_time = 30, t = Some 0, completed_count = 0,
                   taken = [Some ''b'']\<rparr>],
       end_t = 30, start_t = 0, used_t = 1, main = Collecting 0 0,
       delivered = [Some ''b''],
       pipe_room = 8\<rparr>"
  by (simp add: crash_run_def eval_defs)

lemma reading_run_state:
  "run reading_run (benchmark [''a'', ''b''] 1 3 (\<lambda>i. 0) 0 8) =
     Some \<lparr>now = 0, all_files = [''b'', ''a''], queue_depth = 1, cache_drop = True,
       path_queue = [Some ''a'', None], result_queue = [],
       workers = [\<lparr>pc = Reading ''b'', exit_time = 30, t = Some 0, completed_count = 0,
                   taken = [Some ''b'']\<rparr>],
       end_t = 30, start_t = 0, used_t = 0, main = Joining 0,
       delivered = [Some ''b''],
       pipe_room = 8\<rparr>"
  by (simp add: reading_run_def eval_defs)

lemma run_single: "run [e] s = step e s"
  by (cases "step e s") simp_all

section \<open>A run that exhausts the list\<close>

lemma returned_counts:
  assumes "run es (benchmark files qd dc rnd t0 room) = Some s" and "main s = Returned c u"
  shows "\<forall>w \<in> set (workers s). pc w = Done"
    and "c = int (length (paths_of (delivered s)))"
proof -
  from reachable_inv[OF assms(1)] have f: "fifo s" and wk: "workers_ok s" and res: "results_inv s"
    by simp_all
  from res assms(2) show d: "\<forall>w \<in> set (workers s). pc w = Done"
    by (simp add: results_inv_def)
  from res assms(2) have c: "c = sum_list (map completed_count (workers s))"
    by (simp add: results_inv_def)
  have "\<forall>w \<in> set (workers s). completed_count w = int (length (paths_of (taken w)))"
    using wk d by (auto simp add: workers_ok_def wok_def)
  then have "sum_list (map completed_count (workers s))
      = (\<Sum>w\<leftarrow>workers s. int (length (paths_of (taken w))))"
    by (intro arg_cong[where f = sum_list] map_cong) simp_all
  with c have c1: "c = int (length (paths_of (concat (map taken (workers s)))))"
    by (simp add: length_paths_of_concat)
  from f have "mset (paths_of (concat (map taken (workers s)))) = mset (paths_of (delivered s))"
    by (intro paths_of_cong_mset) (simp add: fifo_def)
  then have "length (paths_of (concat (map taken (workers s)))) = length (paths_of (delivered s))"
    by (metis size_mset)
  with c1 show "c = int (length (paths_of (delivered s)))" by simp
qed

lemma sum_list_all_one:
  "(\<forall>w \<in> set ws. f w = Suc 0) \<Longrightarrow> sum_list (map f ws) = length ws"
  by (induction ws) simp_all

lemma stops_of_pos: "None \<in> set xs \<Longrightarrow> 0 < stops_of xs"
  by (induction xs) (auto simp add: stops_of_def)

lemma last_tokens: "1 \<le> qd \<Longrightarrow> last (tokens fs qd) = None"
proof -
  assume "1 \<le> qd"
  then have "replicate (nat qd) (None :: path option) \<noteq> []" by simp
  then show ?thesis by (simp add: tokens_def)
qed

lemma suffix_without_stops:
  assumes "xs @ rest = tokens fs qd" and "1 \<le> qd" and "stops_of rest = 0"
  shows "rest = []"
proof (rule ccontr)
  assume ne: "rest \<noteq> []"
  then have "last rest = last (xs @ rest)" by simp
  also have "\<dots> = None" using assms(1,2) by (simp add: last_tokens)
  finally have "None \<in> set rest" using ne by (metis last_in_set)
  from stops_of_pos[OF this] assms(3) show False by simp
qed

lemma exhausted:
  assumes r: "run es (benchmark files qd dc rnd t0 room) = Some s" and m: "main s = Returned c u"
    and q: "1 \<le> qd" and g: "\<forall>w \<in> set (workers s). \<not> deadline_seen w"
  shows "delivered s = tokens (shuffle rnd files) qd"
    and "\<forall>w \<in> set (workers s). stops_of (taken w) = 1"
proof -
  from reachable_inv[OF r] have f: "fifo s" and wk: "workers_ok s" by simp_all
  from returned_counts(1)[OF r m] have dn: "\<forall>w \<in> set (workers s). pc w = Done" .
  show one: "\<forall>w \<in> set (workers s). stops_of (taken w) = 1"
    using wk dn g by (auto simp add: workers_ok_def wok_def left_loop_def)
  then have "(\<Sum>w\<leftarrow>workers s. stops_of (taken w)) = length (workers s)"
    by (intro sum_list_all_one) simp
  with reachable_frame(4)[OF r] have "stops_of (concat (map taken (workers s))) = nat qd"
    by (simp add: stops_of_concat)
  moreover from f have "stops_of (concat (map taken (workers s))) = stops_of (delivered s)"
    by (intro stops_of_cong_mset) (simp add: fifo_def)
  ultimately have sd: "stops_of (delivered s) = nat qd" by simp
  from f reachable_frame(1,2)[OF r]
  have eq: "delivered s @ (path_queue s @ pending s) = tokens (shuffle rnd files) qd"
    by (simp add: fifo_def)
  then have "stops_of (delivered s) + stops_of (path_queue s @ pending s) = nat qd"
    by (metis stops_of_simps(2) stops_of_tokens)
  with sd have "stops_of (path_queue s @ pending s) = 0" by simp
  from suffix_without_stops[OF eq q this] eq
  show "delivered s = tokens (shuffle rnd files) qd" by simp
qed

section \<open>Reads longer than the duration\<close>

lemma run_invariant_slow:
  assumes "run es s0 = Some s" and "slow_reads d es s0" and "P s0"
    and "\<And>e s s'. P s \<Longrightarrow> slow_event d s e \<Longrightarrow> step e s = Some s' \<Longrightarrow> P s'"
  shows "P s"
  using assms(1,2,3)
proof (induction es arbitrary: s0)
  case Nil
  then show ?case by simp
next
  case (Cons e es)
  from Cons.prems(1) obtain s1 where st: "step e s0 = Some s1" and r: "run es s1 = Some s"
    by (auto split: option.splits)
  from Cons.prems(2) st have ev: "slow_event d s0 e" and sl: "slow_reads d es s1"
    by simp_all
  from assms(4)[OF Cons.prems(3) ev st] have "P s1" .
  from Cons.IH[OF r sl this] show ?case .
qed

lemma after_one_mono: "after_one c late \<Longrightarrow> (late \<Longrightarrow> late') \<Longrightarrow> after_one c late'"
  by (cases c) auto

lemma at_most_once_mono:
  "at_most_once d t0 clock w \<Longrightarrow> clock \<le> clock' \<Longrightarrow> at_most_once d t0 clock' w"
  unfolding at_most_once_def by (auto elim!: after_one_mono)

lemma worker_at_most_once:
  assumes "benchmark_worker clock ok w pq rq = Some (w', pq', rq')"
    and "at_most_once d t0 clock w" and "reading_ok t0 clock w" and "read_took_longer d clock w"
  shows "at_most_once d t0 clock w'"
  using assms(1)
proof (cases rule: worker_cases)
  case Check
  with assms(2) show ?thesis by (auto simp add: at_most_once_def)
next
  case GetStop
  with assms(2) show ?thesis by (auto simp add: at_most_once_def)
next
  case (GetPath p)
  with assms(2) show ?thesis by (auto simp add: at_most_once_def)
next
  case (ReadOk p)
  with assms(2,3,4) show ?thesis
    by (auto simp add: at_most_once_def reading_ok_def read_took_longer_def split: option.splits)
next
  case (ReadFail p)
  with assms(2) show ?thesis by (auto simp add: at_most_once_def)
next
  case Publish
  with assms(2) show ?thesis by (auto simp add: at_most_once_def)
qed

lemma step_at_most_once:
  assumes st: "step e s = Some s'" and ev: "slow_event d s e" and ck: "clock_inv t0 s"
    and inv: "\<forall>w \<in> set (workers s). at_most_once d t0 (now s) w"
  shows "\<forall>w \<in> set (workers s'). at_most_once d t0 (now s') w"
  using st
proof (cases rule: step_cases)
  case (Tick x)
  with inv show ?thesis by (auto intro: at_most_once_mono)
next
  case Main
  with inv show ?thesis by (simp add: main_keeps)
next
  case (Work i ok w' pq' rq')
  from inv Work(2) have a: "at_most_once d t0 (now s) (workers s ! i)" by simp
  from ck Work(2) have b: "reading_ok t0 (now s) (workers s ! i)"
    by (simp add: clock_inv_def)
  from ev Work(1,2) have c: "read_took_longer d (now s) (workers s ! i)" by simp
  from worker_at_most_once[OF Work(3) a b c] have "at_most_once d t0 (now s) w'" .
  moreover have "set ((workers s)[i := w']) \<subseteq> insert w' (set (workers s))"
    by (rule set_update_subset_insert)
  ultimately show ?thesis using inv Work(4) by auto
qed

lemma reachable_at_most_once:
  assumes "run es (benchmark files qd dc rnd t0 room) = Some s"
    and "slow_reads duration es (benchmark files qd dc rnd t0 room)"
  shows "\<forall>w \<in> set (workers s). completed_count w = 0 \<or> completed_count w = 1"
proof -
  have "clock_inv t0 s \<and> (\<forall>w \<in> set (workers s). at_most_once duration t0 (now s) w)"
    using assms
  proof (rule run_invariant_slow)
    show "clock_inv t0 (benchmark files qd dc rnd t0 room) \<and>
        (\<forall>w \<in> set (workers (benchmark files qd dc rnd t0 room)).
           at_most_once duration t0 (now (benchmark files qd dc rnd t0 room)) w)"
      by (simp add: start_clock at_most_once_def)
  next
    fix e s1 s2
    assume "clock_inv t0 s1 \<and> (\<forall>w \<in> set (workers s1). at_most_once duration t0 (now s1) w)"
      and "slow_event duration s1 e" and "step e s1 = Some s2"
    then show "clock_inv t0 s2 \<and> (\<forall>w \<in> set (workers s2). at_most_once duration t0 (now s2) w)"
      using step_clock step_at_most_once by blast
  qed
  then show ?thesis by (auto simp add: at_most_once_def)
qed

section \<open>Termination of the workers\<close>

lemma sum_list_map_update_nat:
  fixes f :: "'a \<Rightarrow> nat"
  shows "i < length xs \<Longrightarrow>
    sum_list (map f (xs[i := y])) + f (xs ! i) = sum_list (map f xs) + f y"
proof (induction xs arbitrary: i)
  case Nil
  then show ?case by simp
next
  case (Cons x xs)
  then show ?case by (cases i) simp_all
qed

lemma main_potential:
  assumes "benchmark_main s = Some s'"
  shows "Suc (potential s') \<le> potential s"
  using assms
proof (cases rule: main_cases)
  case Start
  then show ?thesis by (simp add: potential_def pending_def)
next
  case (PutFile f rest)
  then show ?thesis by (simp add: potential_def pending_def tokens_def)
next
  case FilesDone
  then show ?thesis by (simp add: potential_def pending_def tokens_def)
next
  case (PutStop i)
  then have "nat (queue_depth s - i) = Suc (nat (queue_depth s - (i + 1)))" by simp
  with PutStop show ?thesis by (simp add: potential_def pending_def)
next
  case (StopsDone i)
  then show ?thesis by (simp add: potential_def pending_def)
next
  case (Join k)
  then show ?thesis by (simp add: potential_def pending_def)
next
  case (Joined k)
  then show ?thesis by (simp add: potential_def pending_def)
next
  case (Collect i acc c rest)
  then have "nat (queue_depth s - i) = Suc (nat (queue_depth s - (i + 1)))" by simp
  with Collect show ?thesis by (simp add: potential_def pending_def)
next
  case (Return i acc)
  then show ?thesis by (simp add: potential_def pending_def)
qed

lemma worker_potential:
  assumes "benchmark_worker clock ok w pq rq = Some (w', pq', rq')"
  shows "Suc (worker_rank (pc w') + 3 * length pq') \<le> worker_rank (pc w) + 3 * length pq"
  using assms by (cases rule: worker_cases) simp_all

lemma step_potential:
  assumes "step e s = Some s'"
  shows "(if statement e then 1 else 0) + potential s' \<le> potential s"
  using assms
proof (cases rule: step_cases)
  case (Tick d)
  then show ?thesis by (simp add: potential_def pending_def)
next
  case Main
  with main_potential[of s s'] show ?thesis by simp
next
  case (Work i ok w' pq' rq')
  let ?f = "\<lambda>w. worker_rank (pc w)"
  from sum_list_map_update_nat[OF Work(2), of ?f w']
  have u: "sum_list (map ?f ((workers s)[i := w'])) + ?f (workers s ! i)
      = sum_list (map ?f (workers s)) + ?f w'" .
  from worker_potential[OF Work(3)]
  have p: "Suc (?f w' + 3 * length pq') \<le> ?f (workers s ! i) + 3 * length (path_queue s)" .
  from Work(4) have "potential s' =
      main_rank (main s) (length (all_files s)) (queue_depth s) (length (workers s))
      + 3 * (length pq' + length (pending s))
      + sum_list (map ?f ((workers s)[i := w']))"
    by (simp add: potential_def pending_def)
  with u p Work(1) show ?thesis by (simp add: potential_def)
qed

lemma run_potential:
  assumes "run es s = Some s'"
  shows "length (filter statement es) + potential s' \<le> potential s"
  using assms
proof (induction es arbitrary: s)
  case Nil
  then show ?case by simp
next
  case (Cons e es)
  from Cons.prems obtain s1 where st: "step e s = Some s1" and r: "run es s1 = Some s'"
    by (auto split: option.splits)
  from Cons.IH[OF r] step_potential[OF st] show ?case by (cases "statement e") simp_all
qed

lemma sum_list_less_length:
  fixes f :: "'a \<Rightarrow> nat"
  assumes "\<forall>w \<in> set ws. f w \<le> 1" and "i < length ws" and "f (ws ! i) = 0"
  shows "sum_list (map f ws) < length ws"
  using assms
proof (induction ws arbitrary: i)
  case Nil
  then show ?case by simp
next
  case (Cons w ws)
  have le: "sum_list (map f ws) \<le> length ws"
    using Cons.prems(1) by (induction ws) (auto simp add: le_Suc_eq)
  show ?case
  proof (cases i)
    case 0
    with Cons.prems(3) le show ?thesis by simp
  next
    case (Suc j)
    with Cons.prems have "sum_list (map f ws) < length ws"
      by (intro Cons.IH[of j]) simp_all
    moreover from Cons.prems(1) have "f w \<le> 1" by simp
    ultimately show ?thesis by simp
  qed
qed

lemma stops_enqueued:
  assumes "run es (benchmark files qd dc rnd t0 room) = Some s"
  shows "stops_of (delivered s @ path_queue s) + stops_of (pending s) = length (workers s)"
proof -
  from reachable_inv[OF assms] reachable_frame(1,2)[OF assms]
  have "delivered s @ path_queue s @ pending s = tokens (shuffle rnd files) qd"
    by (simp add: fifo_def)
  then have "stops_of ((delivered s @ path_queue s) @ pending s) = nat qd"
    by (simp del: stops_of_simps)
  with reachable_frame(4)[OF assms] show ?thesis by simp
qed

lemma waiting_worker_is_served:
  assumes r: "run es (benchmark files qd dc rnd t0 room) = Some s"
    and i: "i < length (workers s)" and g: "pc (workers s ! i) = Get"
    and e: "path_queue s = []"
  shows "pending s \<noteq> []"
proof
  assume p: "pending s = []"
  from reachable_inv[OF r] have f: "fifo s" and wk: "workers_ok s" by simp_all
  from stops_enqueued[OF r] e p have sd: "stops_of (delivered s) = length (workers s)" by simp
  from f have "stops_of (concat (map taken (workers s))) = stops_of (delivered s)"
    by (intro stops_of_cong_mset) (simp add: fifo_def)
  with sd have total: "(\<Sum>w\<leftarrow>workers s. stops_of (taken w)) = length (workers s)"
    by (simp add: stops_of_concat)
  from wk have le: "\<forall>w \<in> set (workers s). stops_of (taken w) \<le> 1"
    by (simp add: workers_ok_def wok_def)
  from wk i g have "stops_of (taken (workers s ! i)) = 0"
    by (simp add: workers_ok_def wok_def left_loop_def)
  from sum_list_less_length[of "workers s" "\<lambda>w. stops_of (taken w)", OF le i this] total
  show False by simp
qed

lemma pending_main_moves:
  assumes "pending s \<noteq> []"
  shows "benchmark_main s \<noteq> None"
  using assms by (cases "main s") (auto simp add: pending_def benchmark_main_def split: list.splits)

lemma progress:
  assumes r: "run es (benchmark files qd dc rnd t0 room) = Some s"
    and w: "\<exists>w \<in> set (workers s). \<not> exited w"
  shows "runnable s \<noteq> []"
proof -
  from w obtain i where i: "i < length (workers s)" and ne: "\<not> exited (workers s ! i)"
    by (auto simp add: in_set_conv_nth)
  have "step Main s \<noteq> None \<or> step (Work i True) s \<noteq> None"
  proof (cases "pc (workers s ! i)")
    case Check
    with i show ?thesis by (simp add: benchmark_worker_def)
  next
    case Get
    show ?thesis
    proof (cases "path_queue s")
      case Nil
      from waiting_worker_is_served[OF r i Get Nil] have "benchmark_main s \<noteq> None"
        by (rule pending_main_moves)
      then show ?thesis by simp
    next
      case (Cons x xs)
      with i Get show ?thesis by (cases x) (simp_all add: benchmark_worker_def)
    qed
  next
    case (Reading p)
    with i show ?thesis by (simp add: benchmark_worker_def)
  next
    case Publish
    with i show ?thesis by (simp add: benchmark_worker_def)
  next
    case Done
    with ne show ?thesis by (simp add: exited_def)
  next
    case Crashed
    with ne show ?thesis by (simp add: exited_def)
  qed
  moreover from i have "Work i True \<in> set (map (\<lambda>i. Work i True) [0..<length (workers s)])"
    by simp
  ultimately have "\<exists>e \<in> set (Main # map (\<lambda>i. Work i True) [0..<length (workers s)]). step e s \<noteq> None"
    by (metis list.set_intros(1,2))
  then show ?thesis
    unfolding runnable_def by (simp only: filter_empty_conv) blast
qed

section \<open>The statements of a worker, in their order\<close>

lemma acts_append:
  "run es s = Some s' \<Longrightarrow> acts i (es @ es') s = acts i es s @ acts i es' s'"
  by (induction es arbitrary: s) (auto split: option.splits)

lemma run_snoc:
  assumes "run (es @ [e]) s0 = Some s'"
  obtains s where "run es s0 = Some s" and "step e s = Some s'"
  using assms by (auto simp add: run_append split: option.splits)

lemma acts_snoc:
  assumes "run es s0 = Some s" and "step e s = Some s'"
  shows "acts i (es @ [e]) s0 = acts i es s0 @ step_acts i e s"
  using assms by (simp add: acts_append)

lemma dequeues_append [simp]: "dequeues (tr @ tr') = dequeues tr @ dequeues tr'"
  by (induction tr rule: dequeues.induct) simp_all

lemma checked_snoc:
  "checked D tr \<Longrightarrow> (\<forall>x. a = Dequeue x \<longrightarrow> tr \<noteq> [] \<and> (\<exists>\<tau>. last tr = Clock \<tau> \<and> \<tau> \<le> D))
    \<Longrightarrow> checked D (tr @ [a])"
  unfolding checked_def
  by (auto simp add: nth_append less_Suc_eq last_conv_nth)

lemma leaves_snoc:
  assumes "leaves D tr"
    and "\<And>\<tau>. tr \<noteq> [] \<Longrightarrow> last tr = Clock \<tau> \<Longrightarrow> D < \<tau> \<Longrightarrow> \<exists>c. a = Put_result c"
    and "\<And>c. tr \<noteq> [] \<Longrightarrow> last tr = Put_result c \<Longrightarrow> False"
  shows "leaves D (tr @ [a])"
  unfolding leaves_def
proof (intro allI impI)
  fix k \<tau>
  assume k: "k < length (tr @ [a])" and c: "(tr @ [a]) ! k = Clock \<tau> \<and> D < \<tau>"
  show "Suc k = length (tr @ [a]) \<or>
        (Suc (Suc k) = length (tr @ [a]) \<and> (\<exists>c. (tr @ [a]) ! Suc k = Put_result c))"
  proof (cases "k < length tr")
    case False
    with k show ?thesis by simp
  next
    case True
    with c have ck: "tr ! k = Clock \<tau>" and d: "D < \<tau>" by (simp_all add: nth_append)
    from assms(1) True ck d
    consider "Suc k = length tr" | c' where "Suc (Suc k) = length tr" "tr ! Suc k = Put_result c'"
      unfolding leaves_def by blast
    then show ?thesis
    proof cases
      case 1
      from True have ne: "tr \<noteq> []" by auto
      from 1 have "length tr - 1 = k" by simp
      with ne ck have "last tr = Clock \<tau>" by (simp add: last_conv_nth)
      from assms(2)[OF ne this d] obtain c' where "a = Put_result c'" ..
      with 1 show ?thesis by (simp add: nth_append)
    next
      case 2
      from True have ne: "tr \<noteq> []" by auto
      from 2 have "length tr - 1 = Suc k" by simp
      with ne 2 have "last tr = Put_result c'" by (simp add: last_conv_nth)
      from assms(3)[OF ne this] show ?thesis ..
    qed
  qed
qed

lemma worker_trace:
  assumes "benchmark_worker clock ok w pq rq = Some (w', pq', rq')"
    and "after D (pc w) tr" and "checked D tr" and "leaves D tr"
    and "dequeues tr = taken w" and "exit_time w = D"
  shows "after D (pc w') (tr @ act_of (pc w) clock ok pq (completed_count w))
    \<and> checked D (tr @ act_of (pc w) clock ok pq (completed_count w))
    \<and> leaves D (tr @ act_of (pc w) clock ok pq (completed_count w))
    \<and> dequeues (tr @ act_of (pc w) clock ok pq (completed_count w)) = taken w'"
  using assms(1)
proof (cases rule: worker_cases)
  case Check
  with assms(2-) show ?thesis
    by (auto intro!: checked_snoc leaves_snoc)
next
  case GetStop
  with assms(2-) show ?thesis
    by (auto intro!: checked_snoc leaves_snoc)
next
  case (GetPath p)
  with assms(2-) show ?thesis
    by (auto intro!: checked_snoc leaves_snoc)
next
  case (ReadOk p)
  with assms(2-) show ?thesis
    by (auto intro!: checked_snoc leaves_snoc)
next
  case (ReadFail p)
  with assms(2-) show ?thesis
    by (auto intro!: checked_snoc leaves_snoc)
next
  case Publish
  with assms(2-) show ?thesis
    by (auto intro!: checked_snoc leaves_snoc)
qed

lemma reachable_acts:
  assumes "run es (benchmark files qd dc rnd t0 room) = Some s" and "i < length (workers s)"
  shows "after (t0 + duration) (pc (workers s ! i)) (acts i es (benchmark files qd dc rnd t0 room))
    \<and> checked (t0 + duration) (acts i es (benchmark files qd dc rnd t0 room))
    \<and> leaves (t0 + duration) (acts i es (benchmark files qd dc rnd t0 room))
    \<and> dequeues (acts i es (benchmark files qd dc rnd t0 room)) = taken (workers s ! i)"
  using assms
proof (induction es arbitrary: s rule: rev_induct)
  case Nil
  then have "s = benchmark files qd dc rnd t0 room" by simp
  with Nil.prems(2) show ?case by (simp add: checked_def leaves_def)
next
  case (snoc e es)
  let ?s0 = "benchmark files qd dc rnd t0 room"
  from snoc.prems(1) obtain s1 where r: "run es ?s0 = Some s1" and st: "step e s1 = Some s"
    by (rule run_snoc)
  from main_workers_length[OF st] snoc.prems(2) have i: "i < length (workers s1)" by simp
  note ih = snoc.IH[OF r i]
  have tr: "acts i (es @ [e]) ?s0 = acts i es ?s0 @ step_acts i e s1"
    using r st by (rule acts_snoc)
  from reachable_frame(5)[OF r] i have ex: "exit_time (workers s1 ! i) = t0 + duration" by simp
  from st show ?case
  proof (cases rule: step_cases)
    case (Tick d)
    with ih tr show ?thesis by simp
  next
    case Main
    with ih tr main_keeps(1)[OF Main(2)] show ?thesis by simp
  next
    case (Work j ok w' pq' rq')
    show ?thesis
    proof (cases "j = i")
      case False
      with Work ih tr i show ?thesis by simp
    next
      case True
      from Work(3) True
      have "benchmark_worker (now s1) ok (workers s1 ! i) (path_queue s1) (result_queue s1) = Some (w', pq', rq')"
        by simp
      from worker_trace[OF this _ _ _ _ ex, of "acts i es ?s0"] ih
      have "after (t0 + duration) (pc w') (acts i es ?s0 @ step_acts i e s1)
        \<and> checked (t0 + duration) (acts i es ?s0 @ step_acts i e s1)
        \<and> leaves (t0 + duration) (acts i es ?s0 @ step_acts i e s1)
        \<and> dequeues (acts i es ?s0 @ step_acts i e s1) = taken w'"
        using Work(1) True i by simp
      moreover from Work(4) True i have "workers s ! i = w'" by simp
      ultimately show ?thesis using tr by simp
    qed
  qed
qed

section \<open>The claims\<close>

text \<open>
  Claim C10. \<^verbatim>\<open>benchmark\<close> reorders its input sequence in place (line 127). In every state
  of every run the caller's list is the shuffled input, a permutation of it (same multiset
  of paths, same length), and a later call on the same list starts from the reordered
  list, not from the original one.
\<close>

theorem in_place_shuffle:
  assumes "run es (benchmark files qd dc rnd t0 room) = Some s"
  shows "all_files s = shuffle rnd files \<and> mset (all_files s) = mset files
    \<and> length (all_files s) = length files
    \<and> all_files (benchmark (all_files s) qd' dc' rnd' t1 room') = shuffle rnd' (shuffle rnd files)"
proof -
  from run_frame[OF assms] have "all_files s = shuffle rnd files"
    by (simp add: frame_def benchmark_def)
  then show ?thesis by (simp add: benchmark_def)
qed

text \<open>A run on three paths: the caller's list is reordered, and the next call reorders it again.\<close>

theorem in_place_shuffle_witness:
  "\<exists>s. run [Main, Main, Work 0 True, Tick 1, Work 0 True]
          (benchmark [''a'', ''b'', ''c''] 1 3 (\<lambda>i. 0) 0 8) = Some s
     \<and> all_files s = [''b'', ''c'', ''a'']
     \<and> mset (all_files s) = mset [''a'', ''b'', ''c'']
     \<and> all_files (benchmark (all_files s) 8 3 (\<lambda>i. 0) 40 8) = [''c'', ''a'', ''b'']"
proof -
  obtain s where r: "run [Main, Main, Work 0 True, Tick 1, Work 0 True]
          (benchmark [''a'', ''b'', ''c''] 1 3 (\<lambda>i. 0) 0 8) = Some s"
    by (simp add: eval_defs numeral_2_eq_2)
  from in_place_shuffle[OF r, of 8 3 "\<lambda>i. 0" 40]
  have "all_files s = [''b'', ''c'', ''a'']"
    and "mset (all_files s) = mset [''a'', ''b'', ''c'']"
    and "all_files (benchmark (all_files s) 8 3 (\<lambda>i. 0) 40 8) = [''c'', ''a'', ''b'']"
    by (simp_all add: benchmark_def shuffle_def swap_def numeral_2_eq_2)
  with r show ?thesis by blast
qed



text \<open>
  Claim C2. In every state of a run the tokens delivered so far are a prefix of the
  sequence that is enqueued, and the workers' dequeue histories partition that prefix: no
  enqueued token is delivered twice or to two workers. Hence the paths read by all
  workers are a sub-multiset of the paths supplied, and are pairwise distinct when the
  supplied paths are.
\<close>

theorem single_consumption:
  assumes "run es (benchmark files qd dc rnd t0 room) = Some s"
  shows "(\<exists>rest. delivered s @ rest = tokens (shuffle rnd files) qd)
    \<and> mset (concat (map taken (workers s))) = mset (delivered s)
    \<and> mset (paths_of (concat (map taken (workers s)))) \<subseteq># mset files
    \<and> (distinct files \<longrightarrow> distinct (paths_of (concat (map taken (workers s)))))"
proof -
  have r: "run es (benchmark files qd dc rnd t0 room) = Some s" using assms(1) .
  from reachable_inv[OF r] have f: "fifo s" by simp
  from f reachable_frame(1,2)[OF r]
  have 1: "delivered s @ (path_queue s @ pending s) = tokens (shuffle rnd files) qd"
    by (simp add: fifo_def)
  from f have 2: "mset (concat (map taken (workers s))) = mset (delivered s)"
    by (simp add: fifo_def)
  from 2 have p: "mset (paths_of (concat (map taken (workers s)))) = mset (paths_of (delivered s))"
    by (rule paths_of_cong_mset)
  from delivered_paths[OF f] reachable_frame(1)[OF r]
  have split: "paths_of (delivered s) @ paths_of (path_queue s @ pending s) = shuffle rnd files"
    by simp
  then have "mset (paths_of (delivered s)) + mset (paths_of (path_queue s @ pending s)) = mset files"
    by (metis mset_append mset_shuffle)
  then have 3: "mset (paths_of (concat (map taken (workers s)))) \<subseteq># mset files"
    using p by (metis mset_subset_eq_add_left)
  have 4: "distinct (paths_of (concat (map taken (workers s))))" if "distinct files"
  proof -
    from that have "distinct (shuffle rnd files)" by simp
    with split have "distinct (paths_of (delivered s))"
      by (metis distinct_append)
    with p show ?thesis by (metis mset_eq_imp_distinct_iff)
  qed
  from 1 2 3 4 show ?thesis by blast
qed

text \<open>In the complete run of one worker, both paths are read once each.\<close>

theorem single_consumption_witness:
  "\<exists>s. run one_worker_run (benchmark [''a'', ''b''] 1 3 (\<lambda>i. 0) 0 8) = Some s
     \<and> delivered s @ [] = tokens [''b'', ''a''] 1
     \<and> mset (paths_of (concat (map taken (workers s)))) \<subseteq># mset [''a'', ''b'']
     \<and> distinct (paths_of (concat (map taken (workers s))))"
proof -
  obtain s where r: "run one_worker_run (benchmark [''a'', ''b''] 1 3 (\<lambda>i. 0) 0 8) = Some s"
    and d: "delivered s @ [] = tokens [''b'', ''a''] 1"
    using one_worker_run_state by (simp add: tokens_def)
  have "distinct [''a'', ''b'']" by simp
  with single_consumption[OF r] r d show ?thesis by blast
qed

text \<open>
  Claim C4, as stated: the duration of a run is a parameter the caller supplies, and the
  deadline is the clock at the start of the run plus that duration. It fails:
  \<^verbatim>\<open>benchmark(all_files, queue_depth, drop_caches)\<close> has no duration parameter. A caller who
  wants a run of 10 seconds gets the same deadline, 30 seconds after the clock value of
  line 129, whichever numeric argument carries the 10; and the deadline is counted from
  the clock value of line 129, not from the start timestamp of line 138 (5 in the run
  below, where the deadline is 30 and not 35).
\<close>

theorem deadline_ignores_arguments:
  "end_t (benchmark [''a''] 1 10 (\<lambda>i. 0) 0 8) \<noteq> 0 + 10
   \<and> end_t (benchmark [''a''] 10 0 (\<lambda>i. 0) 0 8) \<noteq> 0 + 10
   \<and> end_t (benchmark [''a''] 1 10 (\<lambda>i. 0) 0 8) = end_t (benchmark [''a''] 10 0 (\<lambda>i. 0) 0 8)
   \<and> map_option start_t (run [Tick 5, Main] (benchmark [''a''] 1 0 (\<lambda>i. 0) 0 8)) = Some 5
   \<and> map_option end_t (run [Tick 5, Main] (benchmark [''a''] 1 0 (\<lambda>i. 0) 0 8)) = Some 30"
  by (simp add: eval_defs)

text \<open>
  Claim C4, amended: the runner's contract is \<^verbatim>\<open>benchmark(all_files, queue_depth, drop_caches)\<close>;
  the duration is the constant 30.0, and the absolute deadline shared by all
  \<^verbatim>\<open>queue_depth\<close> workers is the clock value read at line 129, before the workers are
  started, plus 30.
\<close>

theorem deadline_is_fixed:
  assumes "run es (benchmark files qd dc rnd t0 room) = Some s"
  shows "end_t s = t0 + 30 \<and> (\<forall>w \<in> set (workers s). exit_time w = t0 + 30)
    \<and> length (workers s) = nat qd"
proof -
  have r: "run es (benchmark files qd dc rnd t0 room) = Some s" using assms(1) .
  from reachable_frame(3,4,5)[OF r] show ?thesis
    by (simp add: duration_def)
qed

text \<open>Both workers of the two-worker run hold the deadline 30.\<close>

theorem deadline_is_fixed_witness:
  "\<exists>s. run two_worker_run (benchmark [''a'', ''b''] 2 3 (\<lambda>i. 0) 0 8) = Some s
     \<and> end_t s = 0 + 30 \<and> map exit_time (workers s) = [0 + 30, 0 + 30]
     \<and> length (workers s) = nat 2"
proof -
  obtain s where r: "run two_worker_run (benchmark [''a'', ''b''] 2 3 (\<lambda>i. 0) 0 8) = Some s"
    and e: "map exit_time (workers s) = [0 + 30, 0 + 30]"
    using two_worker_run_state by simp
  from deadline_is_fixed[OF r] have a: "end_t s = 0 + 30" and b: "length (workers s) = nat 2"
    by simp_all
  show ?thesis by (rule exI[of _ s]) (intro conjI r a e b)
qed




text \<open>
  Claim C3, as stated: when a read fails, the worker stops at once, the error is surfaced
  to the pool, and the runner fails the whole run and reports the failure upward instead
  of returning a partial result. The last part fails. \<^verbatim>\<open>benchmark\<close> never looks at a
  worker's exit status: it joins the dead worker (line 147) and then waits at line 151
  for a count that the worker never published. In the run below the only read fails; the
  main process ends blocked in \<^verbatim>\<open>result_queue.get()\<close> on an empty queue, no process can
  move, and no failure has been reported.
\<close>

theorem crash_blocks_runner:
  "(case run crash_run (benchmark [''a'', ''b''] 1 3 (\<lambda>i. 0) 0 8) of
      None \<Rightarrow> False
    | Some s \<Rightarrow> pc (workers s ! 0) = Crashed \<and> main s = Collecting 0 0 \<and> result_queue s = []
        \<and> result s = None \<and> stuck s)"
  by (simp only: crash_run_state option.case)
    (simp add: result_def stuck_def benchmark_main_def benchmark_worker_def)

text \<open>
  Claim C3, amended: when a worker's read fails, that worker stops at once: it does not
  count the read, it takes nothing more from the queue and it publishes no count; it stays
  as it is from then on. After a worker has failed, the runner never returns a result,
  partial or other.
\<close>

theorem crash_stops_worker_and_result:
  assumes "run es (benchmark files qd dc rnd t0 room) = Some s" and "i < length (workers s)"
  shows "(\<forall>p s1. pc (workers s ! i) = Reading p \<and> step (Work i False) s = Some s1 \<longrightarrow>
            pc (workers s1 ! i) = Crashed
            \<and> completed_count (workers s1 ! i) = completed_count (workers s ! i)
            \<and> taken (workers s1 ! i) = taken (workers s ! i)
            \<and> path_queue s1 = path_queue s \<and> result_queue s1 = result_queue s)
    \<and> (\<forall>es' s'. pc (workers s ! i) = Crashed \<and> run es' s = Some s' \<longrightarrow>
            workers s' ! i = workers s ! i \<and> result s' = None)"
proof -
  have r: "run es (benchmark files qd dc rnd t0 room) = Some s" using assms(1) .
  from reachable_inv[OF r] have res: "results_inv s" by simp
  have 1: "pc (workers s1 ! i) = Crashed
      \<and> completed_count (workers s1 ! i) = completed_count (workers s ! i)
      \<and> taken (workers s1 ! i) = taken (workers s ! i)
      \<and> path_queue s1 = path_queue s \<and> result_queue s1 = result_queue s"
    if "pc (workers s ! i) = Reading p" and "step (Work i False) s = Some s1" for p s1
    using that assms(2) by (auto simp add: benchmark_worker_def)
  have 2: "workers s' ! i = workers s ! i \<and> result s' = None"
    if c: "pc (workers s ! i) = Crashed" and r': "run es' s = Some s'" for es' s'
  proof -
    from run_crashed_stays[OF r' assms(2) c]
    have l: "length (workers s') = length (workers s)" and w: "workers s' ! i = workers s ! i"
      by simp_all
    from run_from_inv[OF r' res] have "results_inv s'" .
    from no_result_with_crash[OF this] l w assms(2) c have "result s' = None" by simp
    with w show ?thesis by simp
  qed
  from 1 2 show ?thesis by blast
qed

text \<open>
  The first read of the one-worker run fails: the worker has crashed with count 0, and the
  run has no result 100 seconds later.
\<close>

theorem crash_stops_worker_and_result_witness:
  "\<exists>s0 s1 s. run reading_run (benchmark [''a'', ''b''] 1 3 (\<lambda>i. 0) 0 8) = Some s0
     \<and> pc (workers s0 ! 0) = Reading ''b'' \<and> step (Work 0 False) s0 = Some s1
     \<and> pc (workers s1 ! 0) = Crashed
     \<and> completed_count (workers s1 ! 0) = completed_count (workers s0 ! 0)
     \<and> path_queue s1 = path_queue s0
     \<and> run crash_run (benchmark [''a'', ''b''] 1 3 (\<lambda>i. 0) 0 8) = Some s
     \<and> pc (workers s ! 0) = Crashed
     \<and> map_option result (run [Tick 100] s) = Some None"
proof -
  obtain s0 where r0: "run reading_run (benchmark [''a'', ''b''] 1 3 (\<lambda>i. 0) 0 8) = Some s0"
    and l0: "0 < length (workers s0)" and p0: "pc (workers s0 ! 0) = Reading ''b''"
    using reading_run_state by simp
  obtain s1 where st: "step (Work 0 False) s0 = Some s1"
    using l0 p0 by (simp add: benchmark_worker_def)
  from crash_stops_worker_and_result[OF r0 l0] p0 st
  have a: "pc (workers s1 ! 0) = Crashed"
    and b: "completed_count (workers s1 ! 0) = completed_count (workers s0 ! 0)"
    and q: "path_queue s1 = path_queue s0"
    by blast+
  obtain s where r: "run crash_run (benchmark [''a'', ''b''] 1 3 (\<lambda>i. 0) 0 8) = Some s"
    and l: "0 < length (workers s)" and c: "pc (workers s ! 0) = Crashed"
    using crash_run_state by simp
  obtain s' where r': "run [Tick 100] s = Some s'" by simp
  from crash_stops_worker_and_result[OF r l] c r' have "result s' = None" by blast
  with r' have e: "map_option result (run [Tick 100] s) = Some None" by simp
  show ?thesis
    by (rule exI[of _ s0], rule exI[of _ s1], rule exI[of _ s]) (intro conjI r0 p0 st a b q r c e)
qed

text \<open>
  Claim C5, as stated: a worker checks the deadline before every dequeue and stops without
  dequeuing when the current time exceeds it, so a worker never takes new work after the
  deadline has passed. The conclusion fails: the check of line 108 and the \<^verbatim>\<open>get\<close> of line
  110 are two statements, and \<^verbatim>\<open>get\<close> blocks with no timeout. In the run below the worker
  reads the clock at 0, before the deadline 30, and waits on the empty queue; the path is
  enqueued at 31, and the worker dequeues it and starts to read it at 31.
\<close>

theorem dequeue_after_deadline:
  "(case run late_run (benchmark [''a''] 1 0 (\<lambda>i. 0) 0 8) of
      None \<Rightarrow> False
    | Some s \<Rightarrow> exit_time (workers s ! 0) < now s \<and> taken (workers s ! 0) = []
        \<and> (case step (Work 0 True) s of
              None \<Rightarrow> False
            | Some s' \<Rightarrow> taken (workers s' ! 0) = [Some ''a''] \<and> pc (workers s' ! 0) = Reading ''a''
                \<and> now s' = 31 \<and> exit_time (workers s' ! 0) = 30))"
  by (simp add: late_run_def eval_defs)

text \<open>
  Claim C5, amended: a worker reads the clock at the start of every loop iteration,
  directly before the dequeue of that iteration. Of the statements \<open>tr\<close> that a worker runs
  in a run, in their order: every dequeue comes directly after a clock reading of line 107
  that did not exceed the deadline; a clock reading that exceeds the deadline is followed by
  line 118 and by nothing else, so the worker leaves the loop without dequeuing and never
  dequeues again; and the dequeues of \<open>tr\<close> are all the tokens the worker has taken. (The
  dequeue itself may complete after the deadline, when the worker was waiting on the queue.)
\<close>

theorem deadline_checked_before_dequeue:
  assumes "run es (benchmark files qd dc rnd t0 room) = Some s" and "i < length (workers s)"
    and "acts i es (benchmark files qd dc rnd t0 room) = tr"
  shows "(\<forall>k<length tr. \<forall>x. tr ! k = Dequeue x \<longrightarrow>
            0 < k \<and> (\<exists>\<tau>. tr ! (k - 1) = Clock \<tau> \<and> \<tau> \<le> t0 + 30))
    \<and> (\<forall>k<length tr. \<forall>\<tau>. tr ! k = Clock \<tau> \<and> t0 + 30 < \<tau> \<longrightarrow>
            Suc k = length tr \<or> (Suc (Suc k) = length tr \<and> (\<exists>c. tr ! Suc k = Put_result c)))
    \<and> dequeues tr = taken (workers s ! i)"
proof -
  from reachable_acts[OF assms(1,2)] assms(3)
  have "checked (t0 + duration) tr" and "leaves (t0 + duration) tr"
    and "dequeues tr = taken (workers s ! i)"
    by simp_all
  then show ?thesis
    unfolding checked_def leaves_def duration_def by simp
qed

text \<open>
  In the complete run of one worker, each of the three dequeues comes directly after a clock
  reading within the deadline 30, the one of the second path after the reading 1. A worker
  that reads the clock at 31 puts its count 0 and does nothing else.
\<close>

theorem deadline_checked_before_dequeue_witness:
  "\<exists>s tr s' tr'.
     run one_worker_run (benchmark [''a'', ''b''] 1 3 (\<lambda>i. 0) 0 8) = Some s
     \<and> 0 < length (workers s)
     \<and> acts 0 one_worker_run (benchmark [''a'', ''b''] 1 3 (\<lambda>i. 0) 0 8) = tr
     \<and> tr = [Clock 0, Dequeue (Some ''b''), Read_end True, Clock 1, Dequeue (Some ''a''),
             Read_end True, Clock 2, Dequeue None, Put_result 2]
     \<and> (\<exists>\<tau>. tr ! (4 - 1) = Clock \<tau> \<and> \<tau> \<le> 0 + 30)
     \<and> taken (workers s ! 0) = [Some ''b'', Some ''a'', None]
     \<and> run [Tick 31, Work 0 True, Work 0 True] (benchmark [''a''] 1 0 (\<lambda>i. 0) 0 8) = Some s'
     \<and> 0 < length (workers s')
     \<and> acts 0 [Tick 31, Work 0 True, Work 0 True] (benchmark [''a''] 1 0 (\<lambda>i. 0) 0 8) = tr'
     \<and> tr' ! 0 = Clock 31
     \<and> Suc (Suc 0) = length tr' \<and> (\<exists>c. tr' ! Suc 0 = Put_result c)
     \<and> taken (workers s' ! 0) = []"
proof -
  let ?tr = "[Clock 0, Dequeue (Some ''b''), Read_end True, Clock 1, Dequeue (Some ''a''),
              Read_end True, Clock 2, Dequeue None, Put_result 2]"
  let ?tr' = "[Clock 31, Put_result 0]"
  obtain s where r: "run one_worker_run (benchmark [''a'', ''b''] 1 3 (\<lambda>i. 0) 0 8) = Some s"
    and l: "0 < length (workers s)"
    using one_worker_run_state by simp
  have a: "acts 0 one_worker_run (benchmark [''a'', ''b''] 1 3 (\<lambda>i. 0) 0 8) = ?tr"
    by (simp add: one_worker_run_def eval_defs)
  note d1 = deadline_checked_before_dequeue[OF r l a]
  from d1 have "\<forall>k<length ?tr. \<forall>x. ?tr ! k = Dequeue x \<longrightarrow>
      0 < k \<and> (\<exists>\<tau>. ?tr ! (k - 1) = Clock \<tau> \<and> \<tau> \<le> 0 + 30)"
    by (rule conjunct1)
  from this[rule_format, of 4 "Some ''a''"]
  have c: "\<exists>\<tau>. ?tr ! (4 - 1) = Clock \<tau> \<and> \<tau> \<le> 0 + 30" by simp
  from d1 have t: "taken (workers s ! 0) = [Some ''b'', Some ''a'', None]" by simp
  obtain s' where r': "run [Tick 31, Work 0 True, Work 0 True] (benchmark [''a''] 1 0 (\<lambda>i. 0) 0 8) = Some s'"
    and l': "0 < length (workers s')"
    by (simp add: eval_defs)
  have a': "acts 0 [Tick 31, Work 0 True, Work 0 True] (benchmark [''a''] 1 0 (\<lambda>i. 0) 0 8) = ?tr'"
    by (simp add: eval_defs)
  note d2 = deadline_checked_before_dequeue[OF r' l' a']
  from d2 have "\<forall>k<length ?tr'. \<forall>\<tau>. ?tr' ! k = Clock \<tau> \<and> 0 + 30 < \<tau> \<longrightarrow>
      Suc k = length ?tr' \<or> (Suc (Suc k) = length ?tr' \<and> (\<exists>c. ?tr' ! Suc k = Put_result c))"
    by (elim conjE)
  from this[rule_format, of 0 31]
  have e: "Suc (Suc 0) = length ?tr'" and f: "\<exists>c. ?tr' ! Suc 0 = Put_result c" by simp_all
  have g: "?tr' ! 0 = Clock 31" by simp
  from d2 have t': "taken (workers s' ! 0) = []" by simp
  show ?thesis
    by (rule exI[of _ s], rule exI[of _ ?tr], rule exI[of _ s'], rule exI[of _ ?tr'])
      (intro conjI r l a refl c t r' l' a' g e f t')
qed






text \<open>
  Claim C6. The stop sentinels enqueued so far and those still to be enqueued number the
  workers started: one per worker. This makes every worker end, whatever the clock does:
  as long as a worker has not ended, some statement of some process can run (a worker
  waiting on the empty queue has its sentinel still to come); and a run of the call holds
  at most \<open>5 + 4 * length files + 9 * queue_depth\<close> statements. So every schedule that
  keeps running statements reaches, within that bound, a state where none can run, and
  there every worker has ended. A read that has started is taken to end, with or without
  an error.
\<close>

theorem one_stop_per_worker_terminates:
  assumes "run es (benchmark files qd dc rnd t0 room) = Some s"
  shows "stops_of (delivered s @ path_queue s) + stops_of (pending s) = length (workers s)
    \<and> ((\<exists>w \<in> set (workers s). \<not> exited w) \<longrightarrow> runnable s \<noteq> [])
    \<and> length (filter statement es) + potential s \<le> potential (benchmark files qd dc rnd t0 room)
    \<and> potential (benchmark files qd dc rnd t0 room) = 5 + 4 * length files + 9 * nat qd"
proof -
  have r: "run es (benchmark files qd dc rnd t0 room) = Some s" using assms(1) .
  have 1: "stops_of (delivered s @ path_queue s) + stops_of (pending s) = length (workers s)"
    using r by (rule stops_enqueued)
  have 2: "runnable s \<noteq> []" if "\<exists>w \<in> set (workers s). \<not> exited w"
    using r that by (rule progress)
  have 3: "length (filter statement es) + potential s \<le> potential (benchmark files qd dc rnd t0 room)"
    using assms by (rule run_potential)
  have "sum_list (map (\<lambda>w. worker_rank (pc w)) (replicate n (spawn x))) = 3 * n" for n x
    by (induction n) simp_all
  then have 4: "potential (benchmark files qd dc rnd t0 room) = 5 + 4 * length files + 9 * nat qd"
    by (simp add: potential_def benchmark_def pending_def tokens_def)
  from 1 2 3 4 show ?thesis by blast
qed

text \<open>
  The complete one-worker run has enqueued one sentinel for its one worker, stays within
  the bound 22, and ends with the worker ended; while the worker is reading, a statement
  can run.
\<close>

theorem one_stop_per_worker_terminates_witness:
  "\<exists>s s1. run one_worker_run (benchmark [''a'', ''b''] 1 3 (\<lambda>i. 0) 0 8) = Some s
     \<and> stops_of (delivered s @ path_queue s) + stops_of (pending s) = length (workers s)
     \<and> pending s = [] \<and> list_all exited (workers s)
     \<and> length (filter statement one_worker_run) + potential s \<le> 22
     \<and> run reading_run (benchmark [''a'', ''b''] 1 3 (\<lambda>i. 0) 0 8) = Some s1
     \<and> \<not> exited (workers s1 ! 0) \<and> runnable s1 \<noteq> []"
proof -
  obtain s where r: "run one_worker_run (benchmark [''a'', ''b''] 1 3 (\<lambda>i. 0) 0 8) = Some s"
    and p: "pending s = []" and x: "list_all exited (workers s)"
    using one_worker_run_state by (simp add: pending_def exited_def)
  from one_stop_per_worker_terminates[OF r]
  have a: "stops_of (delivered s @ path_queue s) + stops_of (pending s) = length (workers s)"
    and b: "length (filter statement one_worker_run) + potential s \<le> 22"
    by simp_all
  obtain s1 where r1: "run reading_run (benchmark [''a'', ''b''] 1 3 (\<lambda>i. 0) 0 8) = Some s1"
    and l1: "workers s1 \<noteq> []" and n1: "\<not> exited (workers s1 ! 0)"
    using reading_run_state by (simp add: exited_def)
  from l1 n1 have "\<exists>w \<in> set (workers s1). \<not> exited w"
    by (metis length_greater_0_conv nth_mem)
  with one_stop_per_worker_terminates[OF r1] have c: "runnable s1 \<noteq> []" by blast
  show ?thesis
    by (rule exI[of _ s], rule exI[of _ s1]) (intro conjI r a p x b r1 n1 c)
qed

end
